theory Spec2Isabelle
  imports Main "HOL-Library.AList" "HOL-Library.Multiset"
begin

section \<open>Greedy feedback-arc ordering (sfas/greedy.py)\<close>

text \<open>
  A shallow embedding of \<^verbatim>\<open>compute_order\<close> and of the helpers it calls, at the default
  \<^verbatim>\<open>verbosity=0\<close> (the diagnostic prints are not modelled). Node identifiers are an
  arbitrary type \<open>'a\<close>, compacted ids are \<open>nat\<close>, weights are Python integers (\<open>int\<close>).
  Every exception the code can raise is a value: a failed \<^verbatim>\<open>assert\<close> is
  \<open>AssertionError l\<close> with \<open>l\<close> the source line of the assertion.
\<close>

subsection \<open>Errors\<close>

datatype error = KeyError | ValueError | AssertionError nat

definition ebind :: "error + 'x \<Rightarrow> ('x \<Rightarrow> error + 'y) \<Rightarrow> error + 'y" where
  "ebind m f = (case m of Inl e \<Rightarrow> Inl e | Inr x \<Rightarrow> f x)"

text \<open>A \<^verbatim>\<open>for\<close> loop whose body may raise: the state is threaded, the first error stops it.\<close>

fun efold :: "('x \<Rightarrow> 's \<Rightarrow> error + 's) \<Rightarrow> 'x list \<Rightarrow> 's \<Rightarrow> error + 's" where
  "efold f [] s = Inr s"
| "efold f (x # xs) s = ebind (f x s) (efold f xs)"

definition py_assert :: "nat \<Rightarrow> bool \<Rightarrow> error + unit" where
  "py_assert line c = (if c then Inr () else Inl (AssertionError line))"

subsection \<open>Dictionaries and sets\<close>

text \<open>
  A Python dict is an association list in insertion order with distinct keys:
  \<open>AList.update\<close> overwrites an existing key in place and appends a new one,
  \<open>AList.delete\<close> removes the key, as \<^verbatim>\<open>d[k] = v\<close> and \<^verbatim>\<open>del d[k]\<close> do.
\<close>

type_synonym ('k, 'v) dict = "('k \<times> 'v) list"

definition getitem :: "('k, 'v) dict \<Rightarrow> 'k \<Rightarrow> error + 'v" where
  "getitem d k = (case map_of d k of None \<Rightarrow> Inl KeyError | Some v \<Rightarrow> Inr v)"

definition dict_get :: "('k, 'v) dict \<Rightarrow> 'k \<Rightarrow> 'v \<Rightarrow> 'v" where
  "dict_get d k dflt = (case map_of d k of None \<Rightarrow> dflt | Some v \<Rightarrow> v)"

definition contains :: "('k, 'v) dict \<Rightarrow> 'k \<Rightarrow> bool" where
  "contains d k = (map_of d k \<noteq> None)"

definition setitem :: "('k, 'v) dict \<Rightarrow> 'k \<Rightarrow> 'v \<Rightarrow> ('k, 'v) dict" where
  "setitem d k v = AList.update k v d"

definition delitem :: "('k, 'v) dict \<Rightarrow> 'k \<Rightarrow> error + ('k, 'v) dict" where
  "delitem d k = (if contains d k then Inr (AList.delete k d) else Inl KeyError)"

definition keys :: "('k, 'v) dict \<Rightarrow> 'k list" where
  "keys d = map fst d"

definition values_of :: "('k, 'v) dict \<Rightarrow> 'v list" where
  "values_of d = map snd d"

text \<open>A dict comprehension \<^verbatim>\<open>{k: v for ...}\<close>: later pairs overwrite earlier ones.\<close>

definition dict_comp :: "('k \<times> 'v) list \<Rightarrow> ('k, 'v) dict" where
  "dict_comp ps = fold (\<lambda>(k, v) d. setitem d k v) ps []"

text \<open>\<^verbatim>\<open>enumerate(xs)\<close>\<close>

definition enumerate_py :: "'x list \<Rightarrow> (nat \<times> 'x) list" where
  "enumerate_py xs = zip [0..<length xs] xs"

text \<open>
  Nested access \<^verbatim>\<open>D[a][b]\<close>, \<^verbatim>\<open>del D[a][b]\<close> and \<^verbatim>\<open>D[a][b] -= w\<close>. The inner dict is
  mutated in place; the outer dict keeps its keys and their order.
\<close>

definition getitem2 :: "('k, ('j, 'v) dict) dict \<Rightarrow> 'k \<Rightarrow> 'j \<Rightarrow> error + 'v" where
  "getitem2 D a b = ebind (getitem D a) (\<lambda>d. getitem d b)"

definition delitem2 ::
  "('k, ('j, 'v) dict) dict \<Rightarrow> 'k \<Rightarrow> 'j \<Rightarrow> error + ('k, ('j, 'v) dict) dict" where
  "delitem2 D a b =
     ebind (getitem D a) (\<lambda>d. ebind (delitem d b) (\<lambda>d'. Inr (setitem D a d')))"

definition subitem2 ::
  "('k, ('j, int) dict) dict \<Rightarrow> 'k \<Rightarrow> 'j \<Rightarrow> int \<Rightarrow> error + ('k, ('j, int) dict) dict" where
  "subitem2 D a b w =
     ebind (getitem D a) (\<lambda>d. ebind (getitem d b) (\<lambda>v. Inr (setitem D a (setitem d b (v - w)))))"

text \<open>
  A Python set of compacted ids is a duplicate-free list, in the order in which the
  elements were added. Which element \<^verbatim>\<open>set.pop()\<close> returns, and the order in which a set
  is iterated, are not fixed by Python: they are parameters of the model (see \<open>runtime\<close>
  below).
\<close>

type_synonym 'x pyset = "'x list"

definition set_add :: "'x pyset \<Rightarrow> 'x \<Rightarrow> 'x pyset" where
  "set_add s x = (if x \<in> set s then s else s @ [x])"

definition set_remove :: "'x pyset \<Rightarrow> 'x \<Rightarrow> error + 'x pyset" where
  "set_remove s x = (if x \<in> set s then Inr (removeAll x s) else Inl KeyError)"

subsection \<open>The Python runtime\<close>

text \<open>
  What the code takes from the interpreter and from the \<^verbatim>\<open>random\<close> module:
  \<^item> \<open>set_iter\<close>: the order in which the node set is iterated; for \<^verbatim>\<open>str\<close> identifiers it
    changes from one interpreter process to the next (hash randomization);
  \<^item> \<open>set_slot\<close>: the hash-table slot of an element of a set of compacted ids, given the
    number of nodes placed so far and the set; a set is iterated by increasing slot, so
    every order of iteration is the one of some \<open>set_slot\<close>;
  \<^item> \<open>set_pop\<close>: the position of the element \<^verbatim>\<open>set.pop()\<close> takes out of a bucket, given
    the number of nodes placed so far and the bucket (reduced modulo the bucket's size);
  \<^item> \<open>seed_rng\<close>: the generator state \<^verbatim>\<open>random.seed(n)\<close> installs;
  \<^item> \<open>randbelow\<close>: one draw below a bound (reduced modulo the bound) and the next state.
\<close>

record ('a, 'g) runtime =
  set_iter :: "'a set \<Rightarrow> 'a list"
  set_slot :: "nat \<Rightarrow> nat list \<Rightarrow> nat \<Rightarrow> nat"
  set_pop :: "nat \<Rightarrow> nat list \<Rightarrow> nat"
  seed_rng :: "int \<Rightarrow> 'g"
  randbelow :: "'g \<Rightarrow> nat \<Rightarrow> nat \<times> 'g"

text \<open>\<^verbatim>\<open>for n in s\<close> over a set \<open>s\<close> of compacted ids: the elements by increasing slot.\<close>

definition iter_ids :: "('a, 'g) runtime \<Rightarrow> nat \<Rightarrow> nat pyset \<Rightarrow> nat list" where
  "iter_ids rt step s = sort_key (set_slot rt step s) s"

text \<open>
  \<^verbatim>\<open>random.shuffle(x)\<close>: for \<open>i\<close> from \<open>len(x) - 1\<close> down to \<open>1\<close>, draw \<open>j\<close> below \<open>i + 1\<close>
  and swap \<open>x[i]\<close> with \<open>x[j]\<close>.
\<close>

fun shuffle_loop :: "('g \<Rightarrow> nat \<Rightarrow> nat \<times> 'g) \<Rightarrow> nat \<Rightarrow> 'g \<Rightarrow> 'x list \<Rightarrow> 'x list \<times> 'g" where
  "shuffle_loop rb 0 g x = (x, g)"
| "shuffle_loop rb (Suc i) g x =
     (let (r, g') = rb g (Suc i + 1);
          j = r mod (Suc i + 1)
      in shuffle_loop rb i g' (x[Suc i := x ! j, j := x ! Suc i]))"

definition shuffle :: "('g \<Rightarrow> nat \<Rightarrow> nat \<times> 'g) \<Rightarrow> 'g \<Rightarrow> 'x list \<Rightarrow> 'x list \<times> 'g" where
  "shuffle rb g x = shuffle_loop rb (length x - 1) g x"

subsection \<open>The connections table\<close>

type_synonym 'a row = "'a \<times> 'a \<times> int"

definition r0 :: "'a row \<Rightarrow> 'a" where "r0 r = fst r"
definition r1 :: "'a row \<Rightarrow> 'a" where "r1 r = fst (snd r)"
definition r2 :: "'a row \<Rightarrow> int" where "r2 r = snd (snd r)"

definition nodes_from_connections_table :: "'a row list \<Rightarrow> 'a set" where
  "nodes_from_connections_table connections_table =
     set (map r0 connections_table) \<union> set (map r1 connections_table)"

text \<open>Lines 10-12, the body of the loop over the rows.\<close>

definition adjacency_step ::
  "'a row \<Rightarrow> ('a, 'a row list) dict \<times> ('a, 'a row list) dict
     \<Rightarrow> error + (('a, 'a row list) dict \<times> ('a, 'a row list) dict)" where
  "adjacency_step r ls =
     (case ls of (il, ol) \<Rightarrow>
        ebind (getitem il (r1 r)) (\<lambda>l1.
        ebind (getitem ol (r0 r)) (\<lambda>l0.
        Inr (setitem il (r1 r) (l1 @ [r]), setitem ol (r0 r) (l0 @ [r])))))"

definition adjacency_lists ::
  "('a, 'g) runtime \<Rightarrow> 'a row list \<Rightarrow> error + (('a, 'a row list) dict \<times> ('a, 'a row list) dict)" where
  "adjacency_lists rt connections_table =
     (let node_list = set_iter rt (nodes_from_connections_table connections_table);
          input_lists = dict_comp (map (\<lambda>n. (n, [])) node_list);
          output_lists = dict_comp (map (\<lambda>n. (n, [])) node_list)
      in efold adjacency_step connections_table (input_lists, output_lists))"

subsection \<open>Compaction\<close>

text \<open>\<^verbatim>\<open>compact_dict(rows, nidx)\<close>; the column \<open>nidx\<close> is passed as its selector.\<close>

definition compact_dict ::
  "('a, nat) dict \<Rightarrow> 'a row list \<Rightarrow> ('a row \<Rightarrow> 'a) \<Rightarrow> error + (nat, int) dict" where
  "compact_dict nodes_compacted rows nidx =
     efold (\<lambda>r cd. ebind (getitem nodes_compacted (nidx r)) (\<lambda>cn.
              Inr (setitem cd cn (dict_get cd cn 0 + r2 r))))
       rows []"

text \<open>\<^verbatim>\<open>{nodes_compacted[k]: compact_dict(v, nidx) for k, v in rows.items()}\<close>\<close>

definition compacted_dicts ::
  "('a, nat) dict \<Rightarrow> ('a, 'a row list) dict \<Rightarrow> ('a row \<Rightarrow> 'a) \<Rightarrow> error + (nat, (nat, int) dict) dict" where
  "compacted_dicts nodes_compacted rows nidx =
     efold (\<lambda>(k, v) D. ebind (getitem nodes_compacted k) (\<lambda>ck.
              ebind (compact_dict nodes_compacted v nidx) (\<lambda>cd. Inr (setitem D ck cd))))
       rows []"

type_synonym graph = "(nat, (nat, int) dict) dict"

text \<open>
  The sanity checks of lines 70-75: every entry of one dict is mirrored in the other.
\<close>

definition check_mirror :: "nat \<Rightarrow> graph \<Rightarrow> graph \<Rightarrow> error + unit" where
  "check_mirror line D D' =
     efold (\<lambda>(nd, indict) u.
        efold (\<lambda>(ind, w) u. ebind (getitem2 D' ind nd) (\<lambda>w'. py_assert line (w' = w))) indict u)
       D ()"

text \<open>
  The sanity checks of lines 112-119: mirrored, and no entry in the opposite direction.
\<close>

definition check_mirror_strict :: "nat \<Rightarrow> nat \<Rightarrow> graph \<Rightarrow> graph \<Rightarrow> error + unit" where
  "check_mirror_strict line line' D D' =
     efold (\<lambda>(nd, indict) u.
        efold (\<lambda>(ind, w) u.
           ebind (getitem2 D' ind nd) (\<lambda>w'.
           ebind (py_assert line (w' = w)) (\<lambda>u.
           ebind (getitem D ind) (\<lambda>d. py_assert line' (\<not> contains d nd)))))
         indict u)
       D ()"

subsection \<open>Anti-parallel edges\<close>

text \<open>Lines 84-89: the pairs \<open>(ind, nd)\<close> with \<open>nd < ind\<close> and edges in both directions.\<close>

definition find_anti_parallel_edges :: "graph \<Rightarrow> error + (nat \<times> nat) list" where
  "find_anti_parallel_edges input_dict =
     efold (\<lambda>(nd, indict) acc.
        efold (\<lambda>(ind, w) acc.
           if nd < ind then
             ebind (getitem input_dict ind) (\<lambda>d.
               Inr (if contains d nd then acc @ [(ind, nd)] else acc))
           else Inr acc)
         indict acc)
       input_dict []"

text \<open>Lines 93-108, the body of the loop over the pairs; the state is
  \<open>(input_dict, output_dict, feedback_val)\<close>.\<close>

definition resolve_pair :: "nat \<times> nat \<Rightarrow> graph \<times> graph \<times> int \<Rightarrow> error + (graph \<times> graph \<times> int)" where
  "resolve_pair p st =
     (case (p, st) of ((n1, n2), (input_dict, output_dict, feedback_val)) \<Rightarrow>
        ebind (getitem2 output_dict n1 n2) (\<lambda>w12.
        ebind (getitem2 input_dict n2 n1) (\<lambda>x.
        ebind (py_assert 94 (w12 = x)) (\<lambda>u.
        ebind (getitem2 output_dict n2 n1) (\<lambda>w21.
        ebind (getitem2 input_dict n1 n2) (\<lambda>y.
        ebind (py_assert 96 (w21 = y)) (\<lambda>u.
        if w12 > w21 then
          ebind (delitem2 output_dict n2 n1) (\<lambda>od.
          ebind (delitem2 input_dict n1 n2) (\<lambda>idd.
          ebind (subitem2 od n1 n2 w21) (\<lambda>od'.
          ebind (subitem2 idd n2 n1 w21) (\<lambda>idd'.
          Inr (idd', od', feedback_val + w21)))))
        else
          ebind (delitem2 output_dict n1 n2) (\<lambda>od.
          ebind (delitem2 input_dict n2 n1) (\<lambda>idd.
          ebind (subitem2 od n2 n1 w12) (\<lambda>od'.
          ebind (subitem2 idd n1 n2 w12) (\<lambda>idd'.
          Inr (idd', od', feedback_val + w12))))))))))))"

definition remove_anti_parallel :: "graph \<Rightarrow> graph \<Rightarrow> error + (graph \<times> graph \<times> int)" where
  "remove_anti_parallel input_dict output_dict =
     ebind (find_anti_parallel_edges input_dict) (\<lambda>anti_parallel_edges.
       efold resolve_pair anti_parallel_edges (input_dict, output_dict, 0))"

subsection \<open>Buckets\<close>

datatype bucket_key = Sinks | Sources | Delta int

definition compute_bucket_key_for_node :: "graph \<Rightarrow> graph \<Rightarrow> nat \<Rightarrow> bucket_key" where
  "compute_bucket_key_for_node input_dict output_dict n =
     (case map_of output_dict n of
        None \<Rightarrow> Sinks
      | Some od \<Rightarrow>
          if od = [] then Sinks
          else (case map_of input_dict n of
                  None \<Rightarrow> Sources
                | Some idd \<Rightarrow>
                    if idd = [] then Sources
                    else Delta (sum_list (values_of od) - sum_list (values_of idd))))"

type_synonym buckets = "(bucket_key, nat pyset) dict"

definition insert_to_bucket :: "buckets \<Rightarrow> nat \<Rightarrow> bucket_key \<Rightarrow> buckets" where
  "insert_to_bucket buckets node key =
     (case map_of buckets key of
        Some s \<Rightarrow> setitem buckets key (set_add s node)
      | None \<Rightarrow> setitem buckets key [node])"

definition remove_from_bucket :: "buckets \<Rightarrow> nat \<Rightarrow> bucket_key \<Rightarrow> error + buckets" where
  "remove_from_bucket buckets node key =
     ebind (getitem buckets key) (\<lambda>s.
     ebind (set_remove s node) (\<lambda>s'.
       if s' = [] then delitem (setitem buckets key s') key
       else Inr (setitem buckets key s')))"

text \<open>\<^verbatim>\<open>pop_from_bucket(key)\<close>; \<open>step\<close> is the number of nodes placed so far.\<close>

definition pop_from_bucket ::
  "('a, 'g) runtime \<Rightarrow> nat \<Rightarrow> buckets \<Rightarrow> bucket_key \<Rightarrow> error + (nat \<times> buckets)" where
  "pop_from_bucket rt step buckets key =
     ebind (getitem buckets key) (\<lambda>s.
       if s = [] then Inl KeyError
       else
         let i = set_pop rt step s mod length s;
             itm = s ! i;
             s' = take i s @ drop (Suc i) s
         in if s' = [] then ebind (delitem (setitem buckets key s') key) (\<lambda>b. Inr (itm, b))
            else Inr (itm, setitem buckets key s'))"

text \<open>\<^verbatim>\<open>buckets.get(key)\<close> as a condition: the bucket exists and is not empty.\<close>

definition bucket_truthy :: "buckets \<Rightarrow> bucket_key \<Rightarrow> bool" where
  "bucket_truthy buckets key = (case map_of buckets key of None \<Rightarrow> False | Some s \<Rightarrow> s \<noteq> [])"

text \<open>\<^verbatim>\<open>max(buckets.keys() - {'sinks', 'sources'})\<close>\<close>

fun delta_keys :: "buckets \<Rightarrow> int list" where
  "delta_keys [] = []"
| "delta_keys ((Delta d, s) # b) = d # delta_keys b"
| "delta_keys ((k, s) # b) = delta_keys b"

definition max_delta_key :: "buckets \<Rightarrow> error + int" where
  "max_delta_key buckets =
     (if delta_keys buckets = [] then Inl ValueError else Inr (Max (set (delta_keys buckets))))"

subsection \<open>The state of the main loop\<close>

record state =
  input_dict :: graph
  output_dict :: graph
  buckets :: buckets
  node_to_bucket_key :: "(nat, bucket_key) dict"
  left_list :: "nat list"
  right_list :: "nat list"
  feedback_val :: int

text \<open>
  \<^verbatim>\<open>update_removed_node(node)\<close>. \<^verbatim>\<open>in_nodes\<close> and \<^verbatim>\<open>out_nodes\<close> are references to the
  live inner dicts, so the last loop reads them as they are after the two deletion
  loops. The set \<^verbatim>\<open>set(in_nodes.keys()).union(out_nodes.keys())\<close> of line 187 is built by
  adding the keys in this order, and is visited in the order the runtime gives it.
\<close>

definition rekey_node ::
  "graph \<Rightarrow> graph \<Rightarrow> nat \<Rightarrow> buckets \<times> (nat, bucket_key) dict
     \<Rightarrow> error + (buckets \<times> (nat, bucket_key) dict)" where
  "rekey_node idd od ionode bk =
     (case bk of (b, n2k) \<Rightarrow>
        ebind (getitem n2k ionode) (\<lambda>key.
        ebind (remove_from_bucket b ionode key) (\<lambda>b'.
        let new_key = compute_bucket_key_for_node idd od ionode
        in Inr (insert_to_bucket b' ionode new_key, setitem n2k ionode new_key))))"

definition update_removed_node :: "('a, 'g) runtime \<Rightarrow> state \<Rightarrow> nat \<Rightarrow> error + state" where
  "update_removed_node rt s node =
     ebind (getitem (input_dict s) node) (\<lambda>in_nodes.
     ebind (efold (\<lambda>inode od. delitem2 od inode node) (keys in_nodes) (output_dict s)) (\<lambda>od1.
     ebind (getitem od1 node) (\<lambda>out_nodes.
     ebind (efold (\<lambda>onode idd. delitem2 idd onode node) (keys out_nodes) (input_dict s)) (\<lambda>id1.
     ebind (getitem id1 node) (\<lambda>in_nodes'.
     ebind (delitem id1 node) (\<lambda>id2.
     ebind (delitem od1 node) (\<lambda>od2.
     ebind (efold (rekey_node id2 od2)
              (iter_ids rt (length (left_list s) + length (right_list s))
                 (remdups (keys in_nodes' @ keys out_nodes)))
              (buckets s, node_to_bucket_key s)) (\<lambda>(b, n2k).
     Inr (s\<lparr>input_dict := id2, output_dict := od2, buckets := b,
             node_to_bucket_key := n2k\<rparr>)))))))))"

text \<open>One iteration of the \<^verbatim>\<open>while\<close> loop (lines 201-224).\<close>

definition loop_body :: "('a, 'g) runtime \<Rightarrow> state \<Rightarrow> error + state" where
  "loop_body rt s =
     (let step = length (left_list s) + length (right_list s) in
      if bucket_truthy (buckets s) Sinks then
        ebind (pop_from_bucket rt step (buckets s) Sinks) (\<lambda>(n, b).
          update_removed_node rt (s\<lparr>buckets := b, right_list := right_list s @ [n]\<rparr>) n)
      else if bucket_truthy (buckets s) Sources then
        ebind (pop_from_bucket rt step (buckets s) Sources) (\<lambda>(n, b).
          update_removed_node rt (s\<lparr>buckets := b, left_list := left_list s @ [n]\<rparr>) n)
      else
        ebind (max_delta_key (buckets s)) (\<lambda>max_delta.
        ebind (pop_from_bucket rt step (buckets s) (Delta max_delta)) (\<lambda>(n, b).
        ebind (getitem (input_dict s) n) (\<lambda>in_n.
          let max_delta_feedback = sum_list (values_of in_n)
          in update_removed_node rt
               (s\<lparr>buckets := b, left_list := left_list s @ [n],
                   feedback_val := feedback_val s + max_delta_feedback\<rparr>) n))))"

lemma update_removed_node_lists:
  "update_removed_node rt s n = Inr s' \<Longrightarrow>
     left_list s' = left_list s \<and> right_list s' = right_list s \<and> feedback_val s' = feedback_val s"
  by (auto simp: update_removed_node_def ebind_def split: sum.splits prod.splits)

lemma loop_body_placed:
  "loop_body rt s = Inr s' \<Longrightarrow>
     length (left_list s') + length (right_list s') =
       Suc (length (left_list s) + length (right_list s))"
  by (auto simp: loop_body_def ebind_def Let_def
      split: sum.splits prod.splits if_splits dest!: update_removed_node_lists)

function main_loop :: "('a, 'g) runtime \<Rightarrow> nat \<Rightarrow> state \<Rightarrow> error + state" where
  "main_loop rt num_nodes s =
     (if length (left_list s) + length (right_list s) < num_nodes then
        (case loop_body rt s of Inl e \<Rightarrow> Inl e | Inr s' \<Rightarrow> main_loop rt num_nodes s')
      else Inr s)"
  by pat_completeness auto
termination
  by (relation "measure (\<lambda>(rt, num_nodes, s). num_nodes - (length (left_list s) + length (right_list s)))")
     (auto dest: loop_body_placed)

declare main_loop.simps [simp del]

text \<open>The state after \<open>k\<close> iterations of the loop body, started in \<open>s\<close>.\<close>

fun iterate_loop :: "('a, 'g) runtime \<Rightarrow> nat \<Rightarrow> state \<Rightarrow> error + state" where
  "iterate_loop rt 0 s = Inr s"
| "iterate_loop rt (Suc k) s = ebind (loop_body rt s) (iterate_loop rt k)"

subsection \<open>compute_order\<close>

text \<open>\<^verbatim>\<open>random.seed(n)\<close> replaces the state of the module's global generator.\<close>

definition random_seed_call :: "('a, 'g) runtime \<Rightarrow> int \<Rightarrow> 'g \<Rightarrow> 'g" where
  "random_seed_call rt n g = seed_rng rt n"

text \<open>
  Lines 37-75: adjacency lists, the two shuffles, compaction and the first sanity checks.
  \<open>g\<close> is the state of the global generator when \<^verbatim>\<open>compute_order\<close> is called. The result is
  the shuffled connections, \<^verbatim>\<open>nodes_compacted\<close>, \<^verbatim>\<open>input_dict\<close> and \<^verbatim>\<open>output_dict\<close>.
\<close>

definition compact_graph ::
  "('a, 'g) runtime \<Rightarrow> 'g \<Rightarrow> 'a row list \<Rightarrow> int
     \<Rightarrow> error + ('a row list \<times> ('a, nat) dict \<times> graph \<times> graph)" where
  "compact_graph rt g connections random_seed =
     ebind (adjacency_lists rt connections) (\<lambda>(input_rows, output_rows).
       let g1 = random_seed_call rt random_seed g;
           (connections', g2) = shuffle (randbelow rt) g1 connections;
           (node_ids, g3) = shuffle (randbelow rt) g2 (keys input_rows);
           nodes_compacted = dict_comp (map (\<lambda>(i, k). (k, i)) (enumerate_py node_ids))
       in ebind (compacted_dicts nodes_compacted input_rows r0) (\<lambda>idd.
          ebind (compacted_dicts nodes_compacted output_rows r1) (\<lambda>od.
          ebind (check_mirror 72 idd od) (\<lambda>u.
          ebind (check_mirror 75 od idd) (\<lambda>u.
          Inr (connections', nodes_compacted, idd, od))))))"

text \<open>Lines 150-158: all nodes are put into buckets, then the reverse index is built.\<close>

definition initial_buckets :: "graph \<Rightarrow> graph \<Rightarrow> nat \<Rightarrow> buckets" where
  "initial_buckets idd od num =
     fold (\<lambda>n b. insert_to_bucket b n (compute_bucket_key_for_node idd od n)) [0..<num] []"

definition bucket_index :: "('a, 'g) runtime \<Rightarrow> buckets \<Rightarrow> (nat, bucket_key) dict" where
  "bucket_index rt b = fold (\<lambda>(k, v) m. fold (\<lambda>n m. setitem m n k) (iter_ids rt 0 v) m) b []"

text \<open>
  Lines 37-109: the compacted graph after the anti-parallel edges are cancelled, with the
  feedback total accumulated so far.
\<close>

definition resolve_graph ::
  "('a, 'g) runtime \<Rightarrow> 'g \<Rightarrow> 'a row list \<Rightarrow> int
     \<Rightarrow> error + ('a row list \<times> ('a, nat) dict \<times> graph \<times> graph \<times> int)" where
  "resolve_graph rt g connections random_seed =
     ebind (compact_graph rt g connections random_seed)
       (\<lambda>(connections', nodes_compacted, idd0, od0).
     ebind (remove_anti_parallel idd0 od0) (\<lambda>(idd, od, fb).
     Inr (connections', nodes_compacted, idd, od, fb)))"

text \<open>Lines 37-170: everything before the main loop.\<close>

definition initial_state ::
  "('a, 'g) runtime \<Rightarrow> 'g \<Rightarrow> 'a row list \<Rightarrow> int
     \<Rightarrow> error + ('a row list \<times> ('a, nat) dict \<times> state)" where
  "initial_state rt g connections random_seed =
     ebind (resolve_graph rt g connections random_seed)
       (\<lambda>(connections', nodes_compacted, idd, od, fb).
     ebind (check_mirror_strict 114 115 idd od) (\<lambda>u.
     ebind (check_mirror_strict 118 119 od idd) (\<lambda>u.
     let b = initial_buckets idd od (length nodes_compacted)
     in Inr (connections', nodes_compacted,
             \<lparr>input_dict = idd, output_dict = od, buckets = b,
              node_to_bucket_key = bucket_index rt b,
              left_list = [], right_list = [], feedback_val = fb\<rparr>))))"

text \<open>List comprehensions whose element expression or condition may raise.\<close>

fun emap :: "('x \<Rightarrow> error + 'y) \<Rightarrow> 'x list \<Rightarrow> error + 'y list" where
  "emap f [] = Inr []"
| "emap f (x # xs) = ebind (f x) (\<lambda>y. ebind (emap f xs) (\<lambda>ys. Inr (y # ys)))"

fun efilter :: "('x \<Rightarrow> error + bool) \<Rightarrow> 'x list \<Rightarrow> error + 'x list" where
  "efilter f [] = Inr []"
| "efilter f (x # xs) =
     ebind (f x) (\<lambda>c. ebind (efilter f xs) (\<lambda>ys. Inr (if c then x # ys else ys)))"

text \<open>Lines 227-237; the result is \<^verbatim>\<open>res\<close> with the \<^verbatim>\<open>feedback_val\<close> that passed the check.\<close>

definition finalize ::
  "'a row list \<Rightarrow> ('a, nat) dict \<Rightarrow> state \<Rightarrow> error + ('a list \<times> int)" where
  "finalize connections' nodes_compacted s =
     (let right_list' = rev (right_list s);
          nodes_compacted_inverse = dict_comp (map (\<lambda>(k, v). (v, k)) nodes_compacted)
      in ebind (emap (getitem nodes_compacted_inverse) (left_list s @ right_list')) (\<lambda>res.
         let res_index = dict_comp (map (\<lambda>(k, v). (v, k)) (enumerate_py res)) in
         ebind (efilter (\<lambda>r. ebind (getitem res_index (r0 r)) (\<lambda>p0.
                             ebind (getitem res_index (r1 r)) (\<lambda>p1. Inr (p0 > p1))))
                  connections') (\<lambda>fs.
         let fsw = sum_list (map r2 fs) in
         ebind (py_assert 237 (fsw = feedback_val s)) (\<lambda>u.
         Inr (res, feedback_val s)))))"

text \<open>
  The whole function up to line 237, with the locals \<^verbatim>\<open>res\<close> and \<^verbatim>\<open>feedback_val\<close> as they
  are when line 245 is reached.
\<close>

definition compute_order_locals ::
  "('a, 'g) runtime \<Rightarrow> 'g \<Rightarrow> 'a row list \<Rightarrow> int \<Rightarrow> error + ('a list \<times> int)" where
  "compute_order_locals rt g connections random_seed =
     ebind (initial_state rt g connections random_seed) (\<lambda>(connections', nodes_compacted, s0).
     ebind (main_loop rt (length nodes_compacted) s0) (\<lambda>s.
     finalize connections' nodes_compacted s))"

text \<open>Line 245: \<^verbatim>\<open>return res\<close>.\<close>

definition compute_order ::
  "('a, 'g) runtime \<Rightarrow> 'g \<Rightarrow> 'a row list \<Rightarrow> int \<Rightarrow> error + 'a list" where
  "compute_order rt g connections random_seed =
     ebind (compute_order_locals rt g connections random_seed) (\<lambda>(res, fb). Inr res)"

subsection \<open>A concrete runtime\<close>

text \<open>
  Sets iterate in increasing order (the slot of a compacted id is the id itself),
  \<^verbatim>\<open>pop\<close> takes the first element of a bucket, and every draw of the generator is \<open>0\<close>.
  Used to run the model on concrete tables.
\<close>

definition rt_example :: "(nat, unit) runtime" where
  "rt_example =
     \<lparr>set_iter = sorted_list_of_set, set_slot = (\<lambda>step s n. n), set_pop = (\<lambda>step s. 0),
      seed_rng = (\<lambda>n. ()), randbelow = (\<lambda>g n. (0, g))\<rparr>"

section \<open>Properties of the embedding\<close>

subsection \<open>Dictionaries, errors and the adjacency lists\<close>

lemma set_iter_ids [simp]: "set (iter_ids rt step s) = set s"
  by (simp add: iter_ids_def)

lemma distinct_iter_ids [simp]: "distinct (iter_ids rt step s) = distinct s"
  by (simp add: iter_ids_def)

lemma ebind_Inr [simp]: "ebind (Inr x) f = f x"
  by (simp add: ebind_def)

lemma ebind_Inl [simp]: "ebind (Inl e) f = Inl e"
  by (simp add: ebind_def)

lemma ebind_eq_Inr_iff: "ebind m f = Inr y \<longleftrightarrow> (\<exists>x. m = Inr x \<and> f x = Inr y)"
  by (cases m) auto

lemma getitem_eq_Inr [simp]: "getitem d k = Inr v \<longleftrightarrow> map_of d k = Some v"
  by (simp add: getitem_def split: option.splits)

lemma getitem_Some: "map_of d k = Some v \<Longrightarrow> getitem d k = Inr v"
  by simp

lemma map_of_setitem [simp]: "map_of (setitem d k v) = (map_of d)(k \<mapsto> v)"
  by (simp add: setitem_def update_conv')

lemma keys_setitem: "set (keys (setitem d k v)) = insert k (set (keys d))"
  using dom_update [of k v d] by (simp add: setitem_def keys_def)

lemma distinct_setitem: "distinct (keys d) \<Longrightarrow> distinct (keys (setitem d k v))"
  by (simp add: setitem_def keys_def distinct_update)

lemma contains_iff: "contains d k \<longleftrightarrow> k \<in> set (keys d)"
  by (simp add: contains_def keys_def map_of_eq_None_iff)

lemma delitem_Some: "map_of d k = Some v \<Longrightarrow> delitem d k = Inr (AList.delete k d)"
  by (simp add: delitem_def contains_def)

lemma delitem_eq_Inr: "delitem d k = Inr d' \<longleftrightarrow> (k \<in> set (keys d) \<and> d' = AList.delete k d)"
  by (auto simp: delitem_def contains_iff)

lemma setitem_new: "k \<notin> set (keys d) \<Longrightarrow> setitem d k v = d @ [(k, v)]"
  by (induction d) (auto simp: setitem_def keys_def)

lemma fold_setitem_distinct:
  "distinct (map fst ps) \<Longrightarrow> set (map fst ps) \<inter> set (keys acc) = {} \<Longrightarrow>
   fold (\<lambda>(k, v) d. setitem d k v) ps acc = acc @ ps"
proof (induction ps arbitrary: acc)
  case Nil
  then show ?case by simp
next
  case (Cons p ps)
  obtain k v where p: "p = (k, v)" by (cases p)
  from Cons.prems have "k \<notin> set (keys acc)" by (auto simp: p)
  then have s: "setitem acc k v = acc @ [(k, v)]" by (rule setitem_new)
  have "fold (\<lambda>(k, v) d. setitem d k v) ps (acc @ [(k, v)]) = (acc @ [(k, v)]) @ ps"
    using Cons.prems by (intro Cons.IH) (auto simp: p keys_def)
  then show ?case by (simp add: p s)
qed

lemma dict_comp_distinct: "distinct (map fst ps) \<Longrightarrow> dict_comp ps = ps"
  using fold_setitem_distinct [of ps "[]"] by (simp add: dict_comp_def keys_def)

lemma map_of_tabulate: "map_of (map (\<lambda>n. (n, f n)) ns) k = (if k \<in> set ns then Some (f k) else None)"
  by (induction ns) auto

lemma setitem_tabulate:
  "distinct ns \<Longrightarrow> k \<in> set ns \<Longrightarrow>
   setitem (map (\<lambda>n. (n, f n)) ns) k v = map (\<lambda>n. (n, (f(k := v)) n)) ns"
  by (induction ns) (auto simp: setitem_def)

text \<open>
  The one assumption on the runtime: iterating a finite set lists each of its elements
  exactly once. The order is arbitrary, and so are \<open>set_slot\<close>, \<open>set_pop\<close> and the generator.
\<close>

definition set_iter_ok :: "('a, 'g) runtime \<Rightarrow> bool" where
  "set_iter_ok rt = (\<forall>S. finite S \<longrightarrow> distinct (set_iter rt S) \<and> set (set_iter rt S) = S)"

lemma adjacency_fold:
  "distinct nl \<Longrightarrow> set (map r0 rs) \<union> set (map r1 rs) \<subseteq> set nl \<Longrightarrow>
   efold adjacency_step rs (map (\<lambda>n. (n, f n)) nl, map (\<lambda>n. (n, h n)) nl) =
   Inr (map (\<lambda>n. (n, f n @ filter (\<lambda>r. r1 r = n) rs)) nl,
        map (\<lambda>n. (n, h n @ filter (\<lambda>r. r0 r = n) rs)) nl)"
proof (induction rs arbitrary: f h)
  case Nil
  then show ?case by simp
next
  case (Cons r rs)
  from Cons.prems have in1: "r1 r \<in> set nl" and in0: "r0 r \<in> set nl" by auto
  have st: "adjacency_step r (map (\<lambda>n. (n, f n)) nl, map (\<lambda>n. (n, h n)) nl) =
      Inr (map (\<lambda>n. (n, (f(r1 r := f (r1 r) @ [r])) n)) nl,
           map (\<lambda>n. (n, (h(r0 r := h (r0 r) @ [r])) n)) nl)"
    using in1 in0 Cons.prems(1)
    by (simp add: adjacency_step_def map_of_tabulate getitem_Some setitem_tabulate del: getitem_eq_Inr)
  have IH: "efold adjacency_step
      rs (map (\<lambda>n. (n, (f(r1 r := f (r1 r) @ [r])) n)) nl, map (\<lambda>n. (n, (h(r0 r := h (r0 r) @ [r])) n)) nl) =
   Inr (map (\<lambda>n. (n, (f(r1 r := f (r1 r) @ [r])) n @ filter (\<lambda>r. r1 r = n) rs)) nl,
        map (\<lambda>n. (n, (h(r0 r := h (r0 r) @ [r])) n @ filter (\<lambda>r. r0 r = n) rs)) nl)"
    using Cons.prems by (intro Cons.IH) auto
  show ?case
    by (simp only: efold.simps st ebind_Inr IH) auto
qed

lemma adjacency_lists_ok:
  assumes "set_iter_ok rt"
  shows "adjacency_lists rt ct =
    Inr (map (\<lambda>n. (n, filter (\<lambda>r. r1 r = n) ct)) (set_iter rt (nodes_from_connections_table ct)),
         map (\<lambda>n. (n, filter (\<lambda>r. r0 r = n) ct)) (set_iter rt (nodes_from_connections_table ct)))"
proof -
  let ?nl = "set_iter rt (nodes_from_connections_table ct)"
  have fin: "finite (nodes_from_connections_table ct)"
    by (simp add: nodes_from_connections_table_def)
  with assms have d: "distinct ?nl" and s: "set ?nl = nodes_from_connections_table ct"
    by (auto simp: set_iter_ok_def)
  have dc: "dict_comp (map (\<lambda>n. (n, [])) ?nl) = map (\<lambda>n. (n, [])) ?nl"
    using d by (intro dict_comp_distinct) (simp add: comp_def)
  have sub: "set (map r0 ct) \<union> set (map r1 ct) \<subseteq> set ?nl"
    unfolding s by (auto simp: nodes_from_connections_table_def)
  show ?thesis
    unfolding adjacency_lists_def Let_def dc
    using adjacency_fold [OF d sub, of "\<lambda>n. []" "\<lambda>n. []"] by simp
qed

subsection \<open>Shuffling and the compaction of a row list\<close>

lemma shuffle_loop_mset:
  "i < length x \<Longrightarrow> mset (fst (shuffle_loop rb i g x)) = mset x \<and> length (fst (shuffle_loop rb i g x)) = length x"
proof (induction i arbitrary: g x)
  case 0
  then show ?case by simp
next
  case (Suc i)
  obtain r g' where rb: "rb g (Suc (Suc i)) = (r, g')" by (cases "rb g (Suc (Suc i))")
  let ?j = "r mod Suc (Suc i)"
  let ?x' = "x[Suc i := x ! ?j, ?j := x ! Suc i]"
  have "?j < Suc (Suc i)" by (rule mod_less_divisor) simp
  with Suc.prems have j: "?j < length x" by linarith
  have "mset ?x' = mset x" using Suc.prems j by (simp add: mset_swap)
  moreover have "length ?x' = length x" by simp
  moreover have "i < length ?x'" using Suc.prems by simp
  ultimately show ?case using Suc.IH [of ?x' g'] by (simp add: rb Let_def)
qed

lemma shuffle_mset: "mset (fst (shuffle rb g x)) = mset x"
proof (cases x)
  case Nil
  then show ?thesis by (simp add: shuffle_def)
next
  case (Cons a as)
  then show ?thesis using shuffle_loop_mset [of "length x - 1" x rb g] by (simp add: shuffle_def)
qed

definition wsum :: "('a row \<Rightarrow> bool) \<Rightarrow> 'a row list \<Rightarrow> int" where
  "wsum P rows = sum_list (map r2 (filter P rows))"

lemma wsum_Nil [simp]: "wsum P [] = 0" by (simp add: wsum_def)
lemma wsum_Cons [simp]: "wsum P (r # rs) = (if P r then r2 r else 0) + wsum P rs"
  by (simp add: wsum_def)

lemma dict_get_map_of: "dict_get d k dflt = (case map_of d k of None \<Rightarrow> dflt | Some v \<Rightarrow> v)"
  by (simp add: dict_get_def)

lemma dict_get_setitem:
  "dict_get (setitem d k v) k' dflt = (if k' = k then v else dict_get d k' dflt)"
  by (simp add: dict_get_def)

lemma dict_get_Nil [simp]: "dict_get [] k dflt = dflt"
  by (simp add: dict_get_def)

lemma compact_fold:
  assumes "\<forall>r\<in>set rows. \<exists>i. map_of nc (sel r) = Some i" "distinct (keys acc)"
  shows "\<exists>cd. efold (\<lambda>r cd. ebind (getitem nc (sel r)) (\<lambda>cn.
              Inr (setitem cd cn (dict_get cd cn 0 + r2 r)))) rows acc = Inr cd
          \<and> distinct (keys cd)
          \<and> (\<forall>k. map_of cd k =
                (if k \<in> (\<lambda>r. the (map_of nc (sel r))) ` set rows \<or> k \<in> dom (map_of acc)
                 then Some (dict_get acc k 0 + wsum (\<lambda>r. the (map_of nc (sel r)) = k) rows)
                 else None))"
  using assms
proof (induction rows arbitrary: acc)
  case Nil
  then show ?case by (auto simp: dict_get_def split: option.splits)
next
  case (Cons r rows)
  from Cons.prems obtain i where i: "map_of nc (sel r) = Some i" by auto
  let ?acc = "setitem acc i (dict_get acc i 0 + r2 r)"
  have d: "distinct (keys ?acc)" using Cons.prems(2) by (rule distinct_setitem)
  have pre: "\<forall>r\<in>set rows. \<exists>i. map_of nc (sel r) = Some i" using Cons.prems(1) by simp
  from Cons.IH [OF pre d]
  obtain cd where cd: "efold (\<lambda>r cd. ebind (getitem nc (sel r)) (\<lambda>cn.
              Inr (setitem cd cn (dict_get cd cn 0 + r2 r)))) rows ?acc = Inr cd"
    "distinct (keys cd)"
    and m: "\<And>k. map_of cd k =
                (if k \<in> (\<lambda>r. the (map_of nc (sel r))) ` set rows \<or> k \<in> dom (map_of ?acc)
                 then Some (dict_get ?acc k 0 + wsum (\<lambda>r. the (map_of nc (sel r)) = k) rows)
                 else None)"
    by blast
  have "map_of cd k =
                (if k \<in> (\<lambda>r. the (map_of nc (sel r))) ` set (r # rows) \<or> k \<in> dom (map_of acc)
                 then Some (dict_get acc k 0 + wsum (\<lambda>r. the (map_of nc (sel r)) = k) (r # rows))
                 else None)" for k
  proof (cases "k = i")
    case True
    then show ?thesis unfolding m [of k] using i by (simp add: dict_get_setitem)
  next
    case False
    then show ?thesis unfolding m [of k] using i by (simp add: dict_get_setitem dom_def)
  qed
  moreover have "efold (\<lambda>r cd. ebind (getitem nc (sel r)) (\<lambda>cn.
              Inr (setitem cd cn (dict_get cd cn 0 + r2 r)))) (r # rows) acc = Inr cd"
    using cd(1) i by (simp add: getitem_Some del: getitem_eq_Inr)
  ultimately show ?case using cd(2) by blast
qed

lemma compact_dict_ok:
  assumes "\<forall>r\<in>set rows. \<exists>i. map_of nc (sel r) = Some i"
  shows "\<exists>cd. compact_dict nc rows sel = Inr cd \<and> distinct (keys cd)
          \<and> (\<forall>k. map_of cd k =
                (if k \<in> (\<lambda>r. the (map_of nc (sel r))) ` set rows
                 then Some (wsum (\<lambda>r. the (map_of nc (sel r)) = k) rows)
                 else None))"
proof -
  have "distinct (keys ([] :: (nat, int) dict))" by (simp add: keys_def)
  from compact_fold [OF assms this]
  obtain cd where 1: "efold (\<lambda>r cd. ebind (getitem nc (sel r)) (\<lambda>cn.
              Inr (setitem cd cn (dict_get cd cn 0 + r2 r)))) rows [] = Inr cd"
    and 2: "distinct (keys cd)"
    and 3: "\<And>k. map_of cd k =
                (if k \<in> (\<lambda>r. the (map_of nc (sel r))) ` set rows \<or> k \<in> dom (map_of ([] :: (nat, int) dict))
                 then Some (dict_get [] k 0 + wsum (\<lambda>r. the (map_of nc (sel r)) = k) rows)
                 else None)"
    by blast
  have 4: "compact_dict nc rows sel = Inr cd" unfolding compact_dict_def by (rule 1)
  have 5: "map_of cd k =
                (if k \<in> (\<lambda>r. the (map_of nc (sel r))) ` set rows
                 then Some (wsum (\<lambda>r. the (map_of nc (sel r)) = k) rows)
                 else None)" for k
    unfolding 3 [of k] by simp
  from 4 2 5 show ?thesis by blast
qed

lemma compacted_fold:
  assumes "\<forall>(k, v)\<in>set kvs. (\<exists>i. map_of nc k = Some i) \<and> (\<exists>cd. compact_dict nc v sel = Inr cd)"
    and "distinct (keys D)"
  shows "\<exists>D'. efold (\<lambda>(k, v) D. ebind (getitem nc k) (\<lambda>ck.
              ebind (compact_dict nc v sel) (\<lambda>cd. Inr (setitem D ck cd)))) kvs D = Inr D'
          \<and> distinct (keys D')
          \<and> set (keys D') = set (keys D) \<union> (\<lambda>k. the (map_of nc k)) ` fst ` set kvs
          \<and> (\<forall>x. x \<notin> (\<lambda>k. the (map_of nc k)) ` fst ` set kvs \<longrightarrow> map_of D' x = map_of D x)
          \<and> (distinct (map fst kvs) \<longrightarrow> inj_on (\<lambda>k. the (map_of nc k)) (fst ` set kvs) \<longrightarrow>
               (\<forall>(k, v)\<in>set kvs. map_of D' (the (map_of nc k)) = Some (projr (compact_dict nc v sel))))"
  using assms
proof (induction kvs arbitrary: D)
  case Nil
  then show ?case by simp
next
  case (Cons p kvs)
  obtain k v where p: "p = (k, v)" by (cases p)
  from Cons.prems(1) obtain i cd where i: "map_of nc k = Some i"
    and cd: "compact_dict nc v sel = Inr cd" by (auto simp: p)
  let ?D = "setitem D i cd"
  have d: "distinct (keys ?D)" using Cons.prems(2) by (rule distinct_setitem)
  from Cons.prems(1) have pre: "\<forall>(k, v)\<in>set kvs. (\<exists>i. map_of nc k = Some i) \<and> (\<exists>cd. compact_dict nc v sel = Inr cd)"
    by auto
  from Cons.IH [OF pre d] obtain D' where D':
    "efold (\<lambda>(k, v) D. ebind (getitem nc k) (\<lambda>ck.
              ebind (compact_dict nc v sel) (\<lambda>cd. Inr (setitem D ck cd)))) kvs ?D = Inr D'"
    "distinct (keys D')"
    "set (keys D') = set (keys ?D) \<union> (\<lambda>k. the (map_of nc k)) ` fst ` set kvs"
    "\<forall>x. x \<notin> (\<lambda>k. the (map_of nc k)) ` fst ` set kvs \<longrightarrow> map_of D' x = map_of ?D x"
    "distinct (map fst kvs) \<longrightarrow> inj_on (\<lambda>k. the (map_of nc k)) (fst ` set kvs) \<longrightarrow>
               (\<forall>(k, v)\<in>set kvs. map_of D' (the (map_of nc k)) = Some (projr (compact_dict nc v sel)))"
    by blast
  have run: "efold (\<lambda>(k, v) D. ebind (getitem nc k) (\<lambda>ck.
              ebind (compact_dict nc v sel) (\<lambda>cd. Inr (setitem D ck cd)))) (p # kvs) D = Inr D'"
    using D'(1) i cd by (simp add: p getitem_Some del: getitem_eq_Inr)
  have ks: "set (keys D') = set (keys D) \<union> (\<lambda>k. the (map_of nc k)) ` fst ` set (p # kvs)"
    using D'(3) i by (auto simp: keys_setitem p)
  have other: "\<forall>x. x \<notin> (\<lambda>k. the (map_of nc k)) ` fst ` set (p # kvs) \<longrightarrow> map_of D' x = map_of D x"
    using D'(4) i by (auto simp: p)
  have mine: "distinct (map fst (p # kvs)) \<longrightarrow> inj_on (\<lambda>k. the (map_of nc k)) (fst ` set (p # kvs)) \<longrightarrow>
               (\<forall>(k, v)\<in>set (p # kvs). map_of D' (the (map_of nc k)) = Some (projr (compact_dict nc v sel)))"
  proof (intro impI)
    assume dis: "distinct (map fst (p # kvs))" and inj: "inj_on (\<lambda>k. the (map_of nc k)) (fst ` set (p # kvs))"
    have "i \<notin> (\<lambda>k. the (map_of nc k)) ` fst ` set kvs"
    proof
      assume "i \<in> (\<lambda>k. the (map_of nc k)) ` fst ` set kvs"
      then obtain k' where k': "k' \<in> fst ` set kvs" "the (map_of nc k') = i" by auto
      with inj i have "k' = k" by (auto simp: p inj_on_def)
      with k'(1) dis show False by (auto simp: p)
    qed
    then have "map_of D' i = Some cd" using D'(4) by simp
    moreover have "inj_on (\<lambda>k. the (map_of nc k)) (fst ` set kvs)"
      using inj by (auto simp: inj_on_def)
    ultimately show "\<forall>(k, v)\<in>set (p # kvs). map_of D' (the (map_of nc k)) = Some (projr (compact_dict nc v sel))"
      using D'(5) dis i cd by (auto simp: p)
  qed
  show ?case using run D'(2) ks other mine by blast
qed

subsection \<open>The compacted graph as a weight function\<close>

text \<open>
  \<open>entry D a b\<close> is \<^verbatim>\<open>D[a][b]\<close> when both keys exist. \<open>cweight\<close> is what the two dicts hold
  after compaction: the summed weight of the parallel edges between two compacted ids.
\<close>

definition entry :: "('k, ('j, 'v) dict) dict \<Rightarrow> 'k \<Rightarrow> 'j \<Rightarrow> 'v option" where
  "entry D a b = (case map_of D a of None \<Rightarrow> None | Some d \<Rightarrow> map_of d b)"

definition wf_graph :: "graph \<Rightarrow> bool" where
  "wf_graph D = (distinct (keys D) \<and> (\<forall>d\<in>set (values_of D). distinct (keys d)))"

definition edge_weight :: "'a row list \<Rightarrow> 'a \<Rightarrow> 'a \<Rightarrow> int option" where
  "edge_weight ct u v =
     (if \<exists>r\<in>set ct. r0 r = u \<and> r1 r = v then Some (wsum (\<lambda>r. r0 r = u \<and> r1 r = v) ct)
      else None)"

definition cweight :: "'a list \<Rightarrow> 'a row list \<Rightarrow> nat \<Rightarrow> nat \<Rightarrow> int option" where
  "cweight node_ids ct a b =
     (if a < length node_ids \<and> b < length node_ids
      then edge_weight ct (node_ids ! a) (node_ids ! b) else None)"

lemma getitem2_eq_Inr [simp]: "getitem2 D a b = Inr w \<longleftrightarrow> entry D a b = Some w"
  by (auto simp: getitem2_def entry_def ebind_eq_Inr_iff split: option.splits)

lemma getitem2_Some: "entry D a b = Some w \<Longrightarrow> getitem2 D a b = Inr w"
  by simp

lemma efold_unit_ok: "(\<And>x. x \<in> set xs \<Longrightarrow> f x () = Inr ()) \<Longrightarrow> efold f xs () = Inr ()"
  by (induction xs) auto

lemma wf_graph_entry:
  "wf_graph D \<Longrightarrow> (a, d) \<in> set D \<Longrightarrow> (b, w) \<in> set d \<Longrightarrow> entry D a b = Some w"
  by (auto simp: wf_graph_def entry_def keys_def values_of_def)

lemma wf_graph_inner:
  "wf_graph D \<Longrightarrow> map_of D a = Some d \<Longrightarrow> distinct (keys d)"
  by (auto simp: wf_graph_def values_of_def dest!: map_of_SomeD)

lemma check_mirror_ok:
  assumes "wf_graph D" "\<And>a b w. entry D a b = Some w \<Longrightarrow> entry D' b a = Some w"
  shows "check_mirror l D D' = Inr ()"
  unfolding check_mirror_def
proof (rule efold_unit_ok)
  fix x assume x: "x \<in> set D"
  obtain nd indict where xe: "x = (nd, indict)" by (cases x)
  have "efold (\<lambda>(ind, w) u. ebind (getitem2 D' ind nd) (\<lambda>w'. py_assert l (w' = w))) indict () = Inr ()"
  proof (rule efold_unit_ok)
    fix y assume y: "y \<in> set indict"
    obtain ind w where ye: "y = (ind, w)" by (cases y)
    from wf_graph_entry [OF assms(1)] x y have "entry D nd ind = Some w" by (simp add: xe ye)
    then have "entry D' ind nd = Some w" by (rule assms(2))
    then show "(case y of (ind, w) \<Rightarrow> \<lambda>u. ebind (getitem2 D' ind nd) (\<lambda>w'. py_assert l (w' = w))) () = Inr ()"
      by (simp add: ye getitem2_Some py_assert_def del: getitem2_eq_Inr)
  qed
  then show "(case x of (nd, indict) \<Rightarrow> \<lambda>u. efold (\<lambda>(ind, w) u. ebind (getitem2 D' ind nd) (\<lambda>w'. py_assert l (w' = w))) indict u) () = Inr ()"
    by (simp add: xe)
qed

lemma map_of_zip_index:
  "distinct xs \<Longrightarrow> map_of (zip xs [0..<length xs]) u = Some i \<longleftrightarrow> i < length xs \<and> xs ! i = u"
proof
  assume d: "distinct xs" and m: "map_of (zip xs [0..<length xs]) u = Some i"
  from map_of_SomeD [OF m] have "(u, i) \<in> set (zip xs [0..<length xs])" .
  then obtain n where "n < length xs" "xs ! n = u" "[0..<length xs] ! n = i"
    by (auto simp: in_set_zip)
  then show "i < length xs \<and> xs ! i = u" by simp
next
  assume d: "distinct xs" and "i < length xs \<and> xs ! i = u"
  then show "map_of (zip xs [0..<length xs]) u = Some i"
    using map_of_zip_nth [of xs "[0..<length xs]" i] by auto
qed

lemma enumerate_swap: "map (\<lambda>(i, k). (k, i)) (enumerate_py xs) = zip xs [0..<length xs]"
  unfolding enumerate_py_def by (simp add: zip_commute [of xs] map_prod_def [symmetric] prod.swap_def [symmetric] case_prod_unfold)

lemma wsum_filter: "wsum P (filter Q rs) = wsum (\<lambda>r. Q r \<and> P r) rs"
  by (induction rs) auto

lemma wsum_cong: "(\<And>r. r \<in> set rs \<Longrightarrow> P r = Q r) \<Longrightarrow> wsum P rs = wsum Q rs"
  by (induction rs) auto

lemma compacted_dicts_ok:
  fixes ct :: "'a row list" and node_ids nl :: "'a list"
  assumes dn: "distinct node_ids" and sn: "set node_ids = nodes_from_connections_table ct"
    and dl: "distinct nl" and sl: "set nl = nodes_from_connections_table ct"
    and sel: "(sel = r0 \<and> oth = r1) \<or> (sel = r1 \<and> oth = r0)"
  shows "\<exists>D. compacted_dicts (zip node_ids [0..<length node_ids])
            (map (\<lambda>n. (n, filter (\<lambda>r. oth r = n) ct)) nl) sel = Inr D
          \<and> wf_graph D \<and> set (keys D) = {0..<length node_ids}
          \<and> (\<forall>a b. entry D a b =
                (if a < length node_ids \<and> b < length node_ids
                    \<and> (\<exists>r\<in>set ct. oth r = node_ids ! a \<and> sel r = node_ids ! b)
                 then Some (wsum (\<lambda>r. oth r = node_ids ! a \<and> sel r = node_ids ! b) ct)
                 else None))"
proof -
  let ?nc = "zip node_ids [0..<length node_ids]"
  let ?N = "length node_ids"
  let ?c = "\<lambda>k. the (map_of ?nc k)"
  let ?kvs = "map (\<lambda>n. (n, filter (\<lambda>r. oth r = n) ct)) nl"
  have nc: "map_of ?nc u = Some i \<longleftrightarrow> i < ?N \<and> node_ids ! i = u" for u i
    using dn by (rule map_of_zip_index)
  have c_nth: "?c (node_ids ! i) = i" if "i < ?N" for i
    using nc [of "node_ids ! i" i] that by simp
  have node_ex: "\<exists>i. map_of ?nc u = Some i" if "u \<in> nodes_from_connections_table ct" for u
  proof -
    from that have "u \<in> set node_ids" by (simp add: sn)
    then obtain i where "i < ?N" "node_ids ! i = u" by (auto simp: in_set_conv_nth)
    then show ?thesis using nc by blast
  qed
  have c_lt: "?c u < ?N" and nth_c: "node_ids ! ?c u = u" if "u \<in> nodes_from_connections_table ct" for u
  proof -
    from node_ex [OF that] obtain i where i: "map_of ?nc u = Some i" by blast
    then have "i < ?N \<and> node_ids ! i = u" by (simp only: nc)
    with i show "?c u < ?N" "node_ids ! ?c u = u" by simp_all
  qed
  have sel_node: "sel r \<in> nodes_from_connections_table ct" and oth_node: "oth r \<in> nodes_from_connections_table ct"
    if "r \<in> set ct" for r
    using that sel by (auto simp: nodes_from_connections_table_def)
  have cd_ok: "\<exists>cd. compact_dict ?nc (filter (\<lambda>r. oth r = n) ct) sel = Inr cd \<and> distinct (keys cd)
          \<and> (\<forall>k. map_of cd k =
                (if k \<in> (\<lambda>r. ?c (sel r)) ` set (filter (\<lambda>r. oth r = n) ct)
                 then Some (wsum (\<lambda>r. ?c (sel r) = k) (filter (\<lambda>r. oth r = n) ct))
                 else None))" for n
    by (rule compact_dict_ok) (auto intro: node_ex sel_node)
  have pre: "\<forall>(k, v)\<in>set ?kvs. (\<exists>i. map_of ?nc k = Some i) \<and> (\<exists>cd. compact_dict ?nc v sel = Inr cd)"
  proof -
    have "(\<exists>i. map_of ?nc k = Some i) \<and> (\<exists>cd. compact_dict ?nc v sel = Inr cd)"
      if "(k, v) \<in> set ?kvs" for k v
    proof -
      from that have k: "k \<in> set nl" and v: "v = filter (\<lambda>r. oth r = k) ct" by auto
      from k sl have "\<exists>i. map_of ?nc k = Some i" by (intro node_ex) simp
      moreover from cd_ok [of k] have "\<exists>cd. compact_dict ?nc v sel = Inr cd" unfolding v by blast
      ultimately show ?thesis by blast
    qed
    then show ?thesis by blast
  qed
  have d0: "distinct (keys ([] :: graph))" by (simp add: keys_def)
  from compacted_fold [OF pre d0]
  obtain D where D: "compacted_dicts ?nc ?kvs sel = Inr D" "distinct (keys D)"
    "set (keys D) = set (keys ([] :: graph)) \<union> ?c ` fst ` set ?kvs"
    "\<forall>x. x \<notin> ?c ` fst ` set ?kvs \<longrightarrow> map_of D x = map_of ([] :: graph) x"
    "distinct (map fst ?kvs) \<longrightarrow> inj_on ?c (fst ` set ?kvs) \<longrightarrow>
               (\<forall>(k, v)\<in>set ?kvs. map_of D (?c k) = Some (projr (compact_dict ?nc v sel)))"
    unfolding compacted_dicts_def by blast
  have fk: "fst ` set ?kvs = nodes_from_connections_table ct" using sl by (force simp: image_iff)
  have img: "?c ` nodes_from_connections_table ct = {0..<?N}"
  proof (intro set_eqI iffI)
    fix i assume "i \<in> ?c ` nodes_from_connections_table ct"
    then show "i \<in> {0..<?N}" using c_lt by auto
  next
    fix i assume "i \<in> {0..<?N}"
    then have "i < ?N" by simp
    then have "node_ids ! i \<in> nodes_from_connections_table ct" "?c (node_ids ! i) = i"
      using sn c_nth by (auto simp: set_conv_nth)
    then show "i \<in> ?c ` nodes_from_connections_table ct" by (metis imageI)
  qed
  have inj: "inj_on ?c (nodes_from_connections_table ct)"
    by (rule inj_on_inverseI [where g = "\<lambda>i. node_ids ! i"]) (rule nth_c)
  have "set (keys D) = ?c ` fst ` set ?kvs" using D(3) by (simp add: keys_def)
  then have keysD: "set (keys D) = {0..<?N}" unfolding fk img .
  have dk: "distinct (map fst ?kvs)" using dl by (simp add: comp_def)
  have inner: "map_of D a = Some (projr (compact_dict ?nc (filter (\<lambda>r. oth r = node_ids ! a) ct) sel))"
    if "a < ?N" for a
  proof -
    have "node_ids ! a \<in> set nl" using that sn sl by (auto simp: set_conv_nth)
    then have "(node_ids ! a, filter (\<lambda>r. oth r = node_ids ! a) ct) \<in> set ?kvs" by auto
    with D(5) dk inj fk have "map_of D (?c (node_ids ! a)) =
        Some (projr (compact_dict ?nc (filter (\<lambda>r. oth r = node_ids ! a) ct) sel))" by fastforce
    then show ?thesis using c_nth [OF that] by simp
  qed
  have outer_none: "map_of D a = None" if "\<not> a < ?N" for a
    using keysD that by (auto simp: keys_def map_of_eq_None_iff)
  have wf: "wf_graph D"
    unfolding wf_graph_def
  proof (intro conjI ballI)
    show "distinct (keys D)" by (rule D(2))
  next
    fix d assume "d \<in> set (values_of D)"
    then obtain a where ad: "(a, d) \<in> set D" by (auto simp: values_of_def)
    then have m: "map_of D a = Some d" using D(2) by (simp add: keys_def)
    have "a < ?N" using ad keysD by (force simp: keys_def)
    from inner [OF this] m cd_ok [of "node_ids ! a"] show "distinct (keys d)" by auto
  qed
  have ent: "entry D a b =
                (if a < ?N \<and> b < ?N
                    \<and> (\<exists>r\<in>set ct. oth r = node_ids ! a \<and> sel r = node_ids ! b)
                 then Some (wsum (\<lambda>r. oth r = node_ids ! a \<and> sel r = node_ids ! b) ct)
                 else None)" for a b
  proof (cases "a < ?N")
    case False
    then show ?thesis by (simp add: entry_def outer_none)
  next
    case True
    let ?rows = "filter (\<lambda>r. oth r = node_ids ! a) ct"
    from cd_ok [of "node_ids ! a"] obtain cd where cd: "compact_dict ?nc ?rows sel = Inr cd"
      and mcd: "\<And>k. map_of cd k =
                (if k \<in> (\<lambda>r. ?c (sel r)) ` set ?rows
                 then Some (wsum (\<lambda>r. ?c (sel r) = k) ?rows) else None)" by blast
    have e: "entry D a b = map_of cd b" using inner [OF True] cd by (simp add: entry_def)
    have in_img: "b \<in> (\<lambda>r. ?c (sel r)) ` set ?rows \<longleftrightarrow>
        b < ?N \<and> (\<exists>r\<in>set ct. oth r = node_ids ! a \<and> sel r = node_ids ! b)"
    proof
      assume "b \<in> (\<lambda>r. ?c (sel r)) ` set ?rows"
      then obtain r where r: "r \<in> set ct" "oth r = node_ids ! a" "?c (sel r) = b" by auto
      from sel_node [OF r(1)] have "b < ?N" "node_ids ! b = sel r" using c_lt nth_c r(3) by auto
      with r show "b < ?N \<and> (\<exists>r\<in>set ct. oth r = node_ids ! a \<and> sel r = node_ids ! b)" by auto
    next
      assume "b < ?N \<and> (\<exists>r\<in>set ct. oth r = node_ids ! a \<and> sel r = node_ids ! b)"
      then obtain r where r: "b < ?N" "r \<in> set ct" "oth r = node_ids ! a" "sel r = node_ids ! b" by auto
      then have "?c (sel r) = b" using c_nth by simp
      with r show "b \<in> (\<lambda>r. ?c (sel r)) ` set ?rows" by force
    qed
    have ws: "wsum (\<lambda>r. ?c (sel r) = b) ?rows = wsum (\<lambda>r. oth r = node_ids ! a \<and> sel r = node_ids ! b) ct"
      if "b < ?N"
      unfolding wsum_filter
    proof (rule wsum_cong)
      fix r assume r: "r \<in> set ct"
      have "?c (sel r) = b \<longleftrightarrow> sel r = node_ids ! b"
        using nth_c [OF sel_node [OF r]] c_nth [OF that] by auto
      then show "(oth r = node_ids ! a \<and> ?c (sel r) = b) = (oth r = node_ids ! a \<and> sel r = node_ids ! b)"
        by simp
    qed
    show ?thesis unfolding e mcd [of b] in_img using True ws by auto
  qed
  from D(1) wf keysD ent show ?thesis by blast
qed

subsection \<open>Graph construction succeeds\<close>

lemma compact_graph_ok:
  fixes ct :: "'a row list"
  assumes ok: "set_iter_ok rt"
  shows "\<exists>conns' node_ids idd od.
      compact_graph rt g ct seed = Inr (conns', zip node_ids [0..<length node_ids], idd, od)
    \<and> mset conns' = mset ct \<and> distinct node_ids
    \<and> set node_ids = nodes_from_connections_table ct
    \<and> wf_graph idd \<and> wf_graph od
    \<and> set (keys idd) = {0..<length node_ids} \<and> set (keys od) = {0..<length node_ids}
    \<and> (\<forall>a b. entry od a b = cweight node_ids ct a b)
    \<and> (\<forall>a b. entry idd b a = cweight node_ids ct a b)"
proof -
  let ?nl = "set_iter rt (nodes_from_connections_table ct)"
  let ?ir = "map (\<lambda>n. (n, filter (\<lambda>r. r1 r = n) ct)) ?nl"
  let ?or = "map (\<lambda>n. (n, filter (\<lambda>r. r0 r = n) ct)) ?nl"
  let ?g1 = "random_seed_call rt seed g"
  let ?conns = "fst (shuffle (randbelow rt) ?g1 ct)"
  let ?g2 = "snd (shuffle (randbelow rt) ?g1 ct)"
  let ?ids = "fst (shuffle (randbelow rt) ?g2 ?nl)"
  let ?nc = "zip ?ids [0..<length ?ids]"
  have fin: "finite (nodes_from_connections_table ct)"
    by (simp add: nodes_from_connections_table_def)
  with ok have dl: "distinct ?nl" and sl: "set ?nl = nodes_from_connections_table ct"
    by (auto simp: set_iter_ok_def)
  have ms: "mset ?ids = mset ?nl" by (rule shuffle_mset)
  have dn: "distinct ?ids" using dl ms by (metis mset_eq_imp_distinct_iff)
  have sn: "set ?ids = nodes_from_connections_table ct" using sl ms by (metis mset_eq_setD)
  have kir: "keys ?ir = ?nl" by (simp add: keys_def comp_def)
  have ncd: "dict_comp (map (\<lambda>(i, k). (k, i)) (enumerate_py ?ids)) = ?nc"
    unfolding enumerate_swap using dn by (intro dict_comp_distinct) simp
  from compacted_dicts_ok [OF dn sn dl sl, of r0 r1]
  obtain idd where idd: "compacted_dicts ?nc ?ir r0 = Inr idd" "wf_graph idd"
    "set (keys idd) = {0..<length ?ids}"
    and ient: "\<And>a b. entry idd a b =
                (if a < length ?ids \<and> b < length ?ids
                    \<and> (\<exists>r\<in>set ct. r1 r = ?ids ! a \<and> r0 r = ?ids ! b)
                 then Some (wsum (\<lambda>r. r1 r = ?ids ! a \<and> r0 r = ?ids ! b) ct)
                 else None)"
    by auto
  from compacted_dicts_ok [OF dn sn dl sl, of r1 r0]
  obtain od where od: "compacted_dicts ?nc ?or r1 = Inr od" "wf_graph od"
    "set (keys od) = {0..<length ?ids}"
    and oent: "\<And>a b. entry od a b =
                (if a < length ?ids \<and> b < length ?ids
                    \<and> (\<exists>r\<in>set ct. r0 r = ?ids ! a \<and> r1 r = ?ids ! b)
                 then Some (wsum (\<lambda>r. r0 r = ?ids ! a \<and> r1 r = ?ids ! b) ct)
                 else None)"
    by auto
  have o: "entry od a b = cweight ?ids ct a b" for a b
    unfolding oent cweight_def edge_weight_def by simp
  have i: "entry idd b a = cweight ?ids ct a b" for a b
    unfolding ient cweight_def edge_weight_def by (auto simp: conj_commute intro: wsum_cong)
  have c1: "check_mirror 72 idd od = Inr ()"
    by (rule check_mirror_ok [OF idd(2)]) (simp add: o i)
  have c2: "check_mirror 75 od idd = Inr ()"
    by (rule check_mirror_ok [OF od(2)]) (simp add: o i)
  have "compact_graph rt g ct seed = Inr (?conns, ?nc, idd, od)"
    unfolding compact_graph_def adjacency_lists_ok [OF ok]
    by (simp add: Let_def case_prod_unfold kir ncd [unfolded case_prod_unfold] idd(1) od(1) c1 c2)
  moreover have "mset ?conns = mset ct" by (rule shuffle_mset)
  ultimately show ?thesis using dn sn idd(2,3) od(2,3) o i by blast
qed

subsection \<open>Loops over a set with an invariant; the anti-parallel pairs found\<close>

lemma efold_set_invariant:
  assumes step: "\<And>S x s. I S s \<Longrightarrow> x \<in> A \<Longrightarrow> x \<notin> S \<Longrightarrow> \<exists>s'. f x s = Inr s' \<and> I (insert x S) s'"
  shows "distinct xs \<Longrightarrow> set xs \<subseteq> A \<Longrightarrow> set xs \<inter> S = {} \<Longrightarrow> I S s \<Longrightarrow>
         \<exists>s'. efold f xs s = Inr s' \<and> I (S \<union> set xs) s'"
proof (induction xs arbitrary: S s)
  case Nil
  then show ?case by simp
next
  case (Cons x xs)
  from Cons.prems have "x \<in> A" "x \<notin> S" by auto
  from step [OF Cons.prems(4) this] obtain s1 where s1: "f x s = Inr s1" "I (insert x S) s1" by blast
  have "\<exists>s'. efold f xs s1 = Inr s' \<and> I (insert x S \<union> set xs) s'"
    using Cons.prems s1(2) by (intro Cons.IH) auto
  then show ?case using s1(1) by auto
qed

lemma values_setitem: "set (values_of (setitem D a d)) \<subseteq> insert d (set (values_of D))"
  by (induction D) (auto simp: setitem_def values_of_def)

lemma wf_graph_setitem:
  "wf_graph D \<Longrightarrow> distinct (keys d) \<Longrightarrow> wf_graph (setitem D a d)"
  using values_setitem [of D a d] by (auto simp: wf_graph_def distinct_setitem)

lemma entry_setitem:
  "entry (setitem D a d) x y = (if x = a then map_of d y else entry D x y)"
  by (simp add: entry_def)

lemma distinct_delete_keys: "distinct (keys d) \<Longrightarrow> distinct (keys (AList.delete b d))"
  by (simp add: keys_def distinct_delete)

lemma keys_setitem_same: "map_of D a = Some d \<Longrightarrow> set (keys (setitem D a d')) = set (keys D)"
proof -
  assume "map_of D a = Some d"
  then have "a \<in> set (keys D)" by (force simp: keys_def dest: map_of_SomeD)
  then show ?thesis by (simp add: keys_setitem insert_absorb)
qed

lemma delitem2_ok:
  assumes "wf_graph D" "entry D a b = Some v"
  shows "\<exists>D'. delitem2 D a b = Inr D' \<and> wf_graph D' \<and> set (keys D') = set (keys D)
     \<and> (\<forall>x y. entry D' x y = (if x = a \<and> y = b then None else entry D x y))"
proof -
  from assms(2) obtain d where d: "map_of D a = Some d" "map_of d b = Some v"
    by (auto simp: entry_def split: option.splits)
  let ?D = "setitem D a (AList.delete b d)"
  have "delitem2 D a b = Inr ?D"
    using d by (simp add: delitem2_def getitem_Some delitem_Some del: getitem_eq_Inr)
  moreover have "wf_graph ?D"
    using assms(1) d(1) by (intro wf_graph_setitem distinct_delete_keys) (auto dest: wf_graph_inner)
  moreover have "set (keys ?D) = set (keys D)"
    using d(1) by (rule keys_setitem_same)
  moreover have "entry ?D x y = (if x = a \<and> y = b then None else entry D x y)" for x y
    using d(1) by (auto simp: entry_setitem delete_conv' entry_def)
  ultimately show ?thesis by blast
qed

lemma subitem2_ok:
  assumes "wf_graph D" "entry D a b = Some v"
  shows "\<exists>D'. subitem2 D a b w = Inr D' \<and> wf_graph D' \<and> set (keys D') = set (keys D)
     \<and> (\<forall>x y. entry D' x y = (if x = a \<and> y = b then Some (v - w) else entry D x y))"
proof -
  from assms(2) obtain d where d: "map_of D a = Some d" "map_of d b = Some v"
    by (auto simp: entry_def split: option.splits)
  let ?D = "setitem D a (setitem d b (v - w))"
  have "subitem2 D a b w = Inr ?D"
    using d by (simp add: subitem2_def getitem_Some del: getitem_eq_Inr)
  moreover have "wf_graph ?D"
    using assms(1) d(1) by (intro wf_graph_setitem distinct_setitem) (auto dest: wf_graph_inner)
  moreover have "set (keys ?D) = set (keys D)"
    using d(1) by (rule keys_setitem_same)
  moreover have "entry ?D x y = (if x = a \<and> y = b then Some (v - w) else entry D x y)" for x y
    using d(1) by (auto simp: entry_setitem entry_def)
  ultimately show ?thesis by blast
qed

lemma entry_keys: "entry D a b = Some w \<Longrightarrow> a \<in> set (keys D)"
  by (auto simp: entry_def keys_def split: option.splits dest: map_of_SomeD intro: rev_image_eqI)

lemma find_inner:
  assumes "\<forall>(ind, w)\<in>set indict. ind \<in> set (keys D)"
  shows "efold (\<lambda>(ind, w) acc.
           if nd < ind then
             ebind (getitem D ind) (\<lambda>d.
               Inr (if contains d nd then acc @ [(ind, nd)] else acc))
           else Inr acc) indict acc =
     Inr (acc @ map (\<lambda>(ind, w). (ind, nd))
            (filter (\<lambda>(ind, w). nd < ind \<and> entry D ind nd \<noteq> None) indict))"
  using assms
proof (induction indict arbitrary: acc)
  case Nil
  then show ?case by simp
next
  case (Cons p indict)
  obtain ind w where p: "p = (ind, w)" by (cases p)
  from Cons.prems have "ind \<in> set (keys D)" by (simp add: p)
  then obtain d where d: "map_of D ind = Some d"
    by (auto simp: keys_def) (metis domD domI dom_map_of_conv_image_fst fst_conv imageI)
  have c: "contains d nd \<longleftrightarrow> entry D ind nd \<noteq> None" using d by (simp add: contains_def entry_def)
  from Cons.prems have pre: "\<forall>(ind, w)\<in>set indict. ind \<in> set (keys D)" by simp
  show ?case
    by (simp add: p getitem_Some [OF d] Cons.IH [OF pre] c del: getitem_eq_Inr)
qed

definition ap_of :: "graph \<Rightarrow> nat \<times> (nat, int) dict \<Rightarrow> (nat \<times> nat) list" where
  "ap_of D e = (case e of (nd, indict) \<Rightarrow>
      map (\<lambda>(ind, w). (ind, nd)) (filter (\<lambda>(ind, w). nd < ind \<and> entry D ind nd \<noteq> None) indict))"

lemma find_outer:
  assumes "\<forall>(nd, indict)\<in>set L. \<forall>(ind, w)\<in>set indict. ind \<in> set (keys D)"
  shows "efold (\<lambda>(nd, indict) acc.
        efold (\<lambda>(ind, w) acc.
           if nd < ind then
             ebind (getitem D ind) (\<lambda>d.
               Inr (if contains d nd then acc @ [(ind, nd)] else acc))
           else Inr acc)
         indict acc) L acc = Inr (acc @ concat (map (ap_of D) L))"
  using assms
proof (induction L arbitrary: acc)
  case Nil
  then show ?case by simp
next
  case (Cons e L)
  obtain nd indict where e: "e = (nd, indict)" by (cases e)
  from Cons.prems have 1: "\<forall>(ind, w)\<in>set indict. ind \<in> set (keys D)" by (simp add: e)
  from Cons.prems have 2: "\<forall>(nd, indict)\<in>set L. \<forall>(ind, w)\<in>set indict. ind \<in> set (keys D)" by simp
  show ?case
    by (simp add: e find_inner [OF 1] Cons.IH [OF 2] ap_of_def)
qed

lemma set_ap_of:
  "distinct (keys indict) \<Longrightarrow>
   set (ap_of D (nd, indict)) = {(ind, nd') . nd' = nd \<and> nd < ind \<and> map_of indict ind \<noteq> None \<and> entry D ind nd \<noteq> None}"
  by (auto simp: ap_of_def keys_def map_of_eq_None_iff intro: rev_image_eqI)

lemma distinct_ap_of: "distinct (keys indict) \<Longrightarrow> distinct (ap_of D (nd, indict))"
  by (auto simp: ap_of_def keys_def distinct_map inj_on_def intro!: distinct_filter)
     (metis fst_conv prod.inject)

subsection \<open>Anti-parallel resolution\<close>

text \<open>
  \<open>adjacency_symmetric\<close> is the mirror invariant of the two dicts. \<open>resolved E S\<close> is the
  weight function after the pairs \<open>S\<close> of \<open>E\<close> have been cancelled as lines 93-108 do.
\<close>

definition adjacency_symmetric :: "graph \<Rightarrow> graph \<Rightarrow> bool" where
  "adjacency_symmetric idd od = (\<forall>a b w. (entry od a b = Some w) = (entry idd b a = Some w))"

lemma adjacency_symmetric_iff:
  "adjacency_symmetric idd od \<longleftrightarrow> (\<forall>a b. entry od a b = entry idd b a)"
  unfolding adjacency_symmetric_def
  by (metis option.exhaust)

definition resolved :: "(nat \<Rightarrow> nat \<Rightarrow> int option) \<Rightarrow> (nat \<times> nat) set \<Rightarrow> nat \<Rightarrow> nat \<Rightarrow> int option" where
  "resolved E S a b =
     (if (a, b) \<in> S \<or> (b, a) \<in> S then
        (if the (E a b) > the (E b a) \<or> (the (E a b) = the (E b a) \<and> a < b)
         then Some (the (E a b) - the (E b a)) else None)
      else E a b)"

lemma distinct_concat_ap:
  assumes "distinct (map fst L)" "\<forall>(nd, indict)\<in>set L. distinct (keys indict)"
  shows "distinct (concat (map (ap_of D) L))"
  using assms
proof (induction L)
  case Nil
  then show ?case by simp
next
  case (Cons e L)
  obtain nd indict where e: "e = (nd, indict)" by (cases e)
  from Cons.prems have d: "distinct (keys indict)" by (simp add: e)
  have 1: "distinct (ap_of D e)" unfolding e using d by (rule distinct_ap_of)
  have 2: "distinct (concat (map (ap_of D) L))" using Cons.prems by (intro Cons.IH) auto
  have 3: "snd p = nd" if "p \<in> set (ap_of D e)" for p
    using that by (auto simp: e ap_of_def)
  have 4: "snd p \<in> fst ` set L" if "p \<in> set (concat (map (ap_of D) L))" for p
    using that by (auto simp: ap_of_def intro: rev_image_eqI)
  have "nd \<notin> fst ` set L" using Cons.prems(1) by (simp add: e)
  with 3 4 have "set (ap_of D e) \<inter> set (concat (map (ap_of D) L)) = {}" by blast
  with 1 2 show ?case by simp
qed

lemma find_ap_ok:
  assumes wf: "wf_graph idd" and closed: "\<And>a b w. entry idd a b = Some w \<Longrightarrow> b \<in> set (keys idd)"
  shows "\<exists>ps. find_anti_parallel_edges idd = Inr ps \<and> distinct ps
     \<and> set ps = {(n1, n2). n2 < n1 \<and> entry idd n2 n1 \<noteq> None \<and> entry idd n1 n2 \<noteq> None}"
proof -
  let ?ps = "concat (map (ap_of idd) idd)"
  have pre: "\<forall>(nd, indict)\<in>set idd. \<forall>(ind, w)\<in>set indict. ind \<in> set (keys idd)"
    using wf_graph_entry [OF wf] closed by blast
  have run: "find_anti_parallel_edges idd = Inr ?ps"
    unfolding find_anti_parallel_edges_def using find_outer [OF pre, of "[]"] by simp
  have inner: "\<forall>(nd, indict)\<in>set idd. distinct (keys indict)"
    using wf by (auto simp: wf_graph_def values_of_def)
  have dis: "distinct ?ps"
    using wf inner by (intro distinct_concat_ap) (auto simp: wf_graph_def keys_def)
  have "set ?ps = {(n1, n2). n2 < n1 \<and> entry idd n2 n1 \<noteq> None \<and> entry idd n1 n2 \<noteq> None}"
  proof (intro set_eqI iffI)
    fix p assume "p \<in> set ?ps"
    then obtain nd indict where e: "(nd, indict) \<in> set idd" "p \<in> set (ap_of idd (nd, indict))"
      by auto
    from e(1) inner have d: "distinct (keys indict)" by auto
    from e(1) wf have m: "map_of idd nd = Some indict" by (simp add: wf_graph_def keys_def)
    from e(2) show "p \<in> {(n1, n2). n2 < n1 \<and> entry idd n2 n1 \<noteq> None \<and> entry idd n1 n2 \<noteq> None}"
      unfolding set_ap_of [OF d] using m by (auto simp: entry_def)
  next
    fix p assume "p \<in> {(n1, n2). n2 < n1 \<and> entry idd n2 n1 \<noteq> None \<and> entry idd n1 n2 \<noteq> None}"
    then obtain n1 n2 where p: "p = (n1, n2)" "n2 < n1" "entry idd n2 n1 \<noteq> None" "entry idd n1 n2 \<noteq> None"
      by auto
    from p(3) obtain indict where m: "map_of idd n2 = Some indict" "map_of indict n1 \<noteq> None"
      by (auto simp: entry_def split: option.splits)
    from m(1) have e: "(n2, indict) \<in> set idd" by (rule map_of_SomeD)
    with inner have d: "distinct (keys indict)" by auto
    have "p \<in> set (ap_of idd (n2, indict))" unfolding set_ap_of [OF d] using p m by simp
    with e show "p \<in> set ?ps" by force
  qed
  with run dis show ?thesis by blast
qed

definition resolve_inv ::
  "graph \<Rightarrow> graph \<Rightarrow> (nat \<times> nat) set \<Rightarrow> (nat \<times> nat) set \<Rightarrow> graph \<times> graph \<times> int \<Rightarrow> bool" where
  "resolve_inv idd0 od0 A S st =
     (case st of (idd, od, fb) \<Rightarrow>
        S \<subseteq> A \<and> finite S \<and> wf_graph idd \<and> wf_graph od
      \<and> set (keys idd) = set (keys idd0) \<and> set (keys od) = set (keys od0)
      \<and> (\<forall>a b. entry od a b = resolved (entry od0) S a b)
      \<and> (\<forall>a b. entry idd b a = resolved (entry od0) S a b)
      \<and> fb = (\<Sum>(n1, n2)\<in>S. min (the (entry od0 n1 n2)) (the (entry od0 n2 n1))))"

lemma resolve_pair_step:
  assumes A: "A \<subseteq> {(n1, n2). n2 < n1 \<and> entry od0 n1 n2 \<noteq> None \<and> entry od0 n2 n1 \<noteq> None}"
    and inv: "resolve_inv idd0 od0 A S st" and pA: "p \<in> A" and pS: "p \<notin> S"
  shows "\<exists>st'. resolve_pair p st = Inr st' \<and> resolve_inv idd0 od0 A (insert p S) st'"
proof -
  obtain idd od fb where st: "st = (idd, od, fb)" by (cases st)
  obtain n1 n2 where p: "p = (n1, n2)" by (cases p)
  from pA A obtain w12 w21 where lt: "n2 < n1" and w12: "entry od0 n1 n2 = Some w12"
    and w21: "entry od0 n2 n1 = Some w21" by (auto simp: p)
  from inv have SA: "S \<subseteq> A" and fin: "finite S" and wfi: "wf_graph idd" and wfo: "wf_graph od"
    and ki: "set (keys idd) = set (keys idd0)" and ko: "set (keys od) = set (keys od0)"
    and eo: "\<And>a b. entry od a b = resolved (entry od0) S a b"
    and ei: "\<And>a b. entry idd b a = resolved (entry od0) S a b"
    and fb: "fb = (\<Sum>(n1, n2)\<in>S. min (the (entry od0 n1 n2)) (the (entry od0 n2 n1)))"
    by (auto simp: resolve_inv_def st)
  have nS: "(n1, n2) \<notin> S" "(n2, n1) \<notin> S"
    using pS p SA A lt by auto
  have o12: "entry od n1 n2 = Some w12" and o21: "entry od n2 n1 = Some w21"
    and i21: "entry idd n2 n1 = Some w12" and i12: "entry idd n1 n2 = Some w21"
    using nS w12 w21 by (simp_all add: eo ei resolved_def)
  have ne: "n1 \<noteq> n2" using lt by simp
  have sum: "(\<Sum>(n1, n2)\<in>insert p S. min (the (entry od0 n1 n2)) (the (entry od0 n2 n1))) =
      fb + min w12 w21"
    using fin pS by (simp add: fb p w12 w21)
  show ?thesis
  proof (cases "w12 > w21")
    case True
    from delitem2_ok [OF wfo o21] obtain od1 where od1: "delitem2 od n2 n1 = Inr od1" "wf_graph od1"
      "set (keys od1) = set (keys od)"
      and e1: "\<And>x y. entry od1 x y = (if x = n2 \<and> y = n1 then None else entry od x y)" by blast
    from delitem2_ok [OF wfi i12] obtain id1 where id1: "delitem2 idd n1 n2 = Inr id1" "wf_graph id1"
      "set (keys id1) = set (keys idd)"
      and f1: "\<And>x y. entry id1 x y = (if x = n1 \<and> y = n2 then None else entry idd x y)" by blast
    have "entry od1 n1 n2 = Some w12" using o12 ne by (simp add: e1)
    from subitem2_ok [OF od1(2) this, of w21] obtain od2 where od2: "subitem2 od1 n1 n2 w21 = Inr od2"
      "wf_graph od2" "set (keys od2) = set (keys od1)"
      and e2: "\<And>x y. entry od2 x y = (if x = n1 \<and> y = n2 then Some (w12 - w21) else entry od1 x y)"
      by blast
    have "entry id1 n2 n1 = Some w12" using i21 ne by (simp add: f1)
    from subitem2_ok [OF id1(2) this, of w21] obtain id2 where id2: "subitem2 id1 n2 n1 w21 = Inr id2"
      "wf_graph id2" "set (keys id2) = set (keys id1)"
      and f2: "\<And>x y. entry id2 x y = (if x = n2 \<and> y = n1 then Some (w12 - w21) else entry id1 x y)"
      by blast
    have run: "resolve_pair p st = Inr (id2, od2, fb + w21)"
      using True o12 o21 i12 i21
      by (simp add: resolve_pair_def p st getitem2_Some py_assert_def od1(1) id1(1) od2(1) id2(1)
          del: getitem2_eq_Inr)
    have ro: "entry od2 a b = resolved (entry od0) (insert p S) a b" for a b
      using True nS ne w12 w21 by (auto simp: e2 e1 eo resolved_def p)
    have ri: "entry id2 b a = resolved (entry od0) (insert p S) a b" for a b
      using True nS ne w12 w21 by (auto simp: f2 f1 ei resolved_def p)
    have "resolve_inv idd0 od0 A (insert p S) (id2, od2, fb + w21)"
      unfolding resolve_inv_def using SA pA fin od2(2,3) id2(2,3) od1(3) id1(3) ki ko ro ri sum True
      by (simp add: min_def)
    with run show ?thesis by blast
  next
    case False
    from delitem2_ok [OF wfo o12] obtain od1 where od1: "delitem2 od n1 n2 = Inr od1" "wf_graph od1"
      "set (keys od1) = set (keys od)"
      and e1: "\<And>x y. entry od1 x y = (if x = n1 \<and> y = n2 then None else entry od x y)" by blast
    from delitem2_ok [OF wfi i21] obtain id1 where id1: "delitem2 idd n2 n1 = Inr id1" "wf_graph id1"
      "set (keys id1) = set (keys idd)"
      and f1: "\<And>x y. entry id1 x y = (if x = n2 \<and> y = n1 then None else entry idd x y)" by blast
    have "entry od1 n2 n1 = Some w21" using o21 ne by (simp add: e1)
    from subitem2_ok [OF od1(2) this, of w12] obtain od2 where od2: "subitem2 od1 n2 n1 w12 = Inr od2"
      "wf_graph od2" "set (keys od2) = set (keys od1)"
      and e2: "\<And>x y. entry od2 x y = (if x = n2 \<and> y = n1 then Some (w21 - w12) else entry od1 x y)"
      by blast
    have "entry id1 n1 n2 = Some w21" using i12 ne by (simp add: f1)
    from subitem2_ok [OF id1(2) this, of w12] obtain id2 where id2: "subitem2 id1 n1 n2 w12 = Inr id2"
      "wf_graph id2" "set (keys id2) = set (keys id1)"
      and f2: "\<And>x y. entry id2 x y = (if x = n1 \<and> y = n2 then Some (w21 - w12) else entry id1 x y)"
      by blast
    have run: "resolve_pair p st = Inr (id2, od2, fb + w12)"
      using False o12 o21 i12 i21
      by (simp add: resolve_pair_def p st getitem2_Some py_assert_def od1(1) id1(1) od2(1) id2(1)
          del: getitem2_eq_Inr)
    have ro: "entry od2 a b = resolved (entry od0) (insert p S) a b" for a b
      using False nS ne w12 w21 lt by (auto simp: e2 e1 eo resolved_def p)
    have ri: "entry id2 b a = resolved (entry od0) (insert p S) a b" for a b
      using False nS ne w12 w21 lt by (auto simp: f2 f1 ei resolved_def p)
    have "resolve_inv idd0 od0 A (insert p S) (id2, od2, fb + w12)"
      unfolding resolve_inv_def using SA pA fin od2(2,3) id2(2,3) od1(3) id1(3) ki ko ro ri sum False
      by (simp add: min_def)
    with run show ?thesis by blast
  qed
qed

definition anti_parallel_pairs :: "(nat \<Rightarrow> nat \<Rightarrow> int option) \<Rightarrow> (nat \<times> nat) set" where
  "anti_parallel_pairs E = {(n1, n2). n2 < n1 \<and> E n1 n2 \<noteq> None \<and> E n2 n1 \<noteq> None}"

lemma remove_anti_parallel_ok:
  assumes wfi: "wf_graph idd0" and wfo: "wf_graph od0"
    and sym: "\<And>a b. entry od0 a b = entry idd0 b a"
    and closed: "\<And>a b w. entry idd0 a b = Some w \<Longrightarrow> b \<in> set (keys idd0)"
  shows "\<exists>st. remove_anti_parallel idd0 od0 = Inr st \<and>
     resolve_inv idd0 od0 (anti_parallel_pairs (entry od0)) (anti_parallel_pairs (entry od0)) st"
proof -
  let ?A = "anti_parallel_pairs (entry od0)"
  have "\<exists>ps. find_anti_parallel_edges idd0 = Inr ps \<and> distinct ps
     \<and> set ps = {(n1, n2). n2 < n1 \<and> entry idd0 n2 n1 \<noteq> None \<and> entry idd0 n1 n2 \<noteq> None}"
    by (rule find_ap_ok [OF wfi]) (rule closed)
  then obtain ps where ps: "find_anti_parallel_edges idd0 = Inr ps"
    "distinct ps"
    "set ps = {(n1, n2). n2 < n1 \<and> entry idd0 n2 n1 \<noteq> None \<and> entry idd0 n1 n2 \<noteq> None}"
    by blast
  have sA: "set ps = ?A" unfolding ps(3) anti_parallel_pairs_def by (auto simp: sym)
  have A: "?A \<subseteq> {(n1, n2). n2 < n1 \<and> entry od0 n1 n2 \<noteq> None \<and> entry od0 n2 n1 \<noteq> None}"
    by (simp add: anti_parallel_pairs_def)
  have i0: "resolve_inv idd0 od0 ?A {} (idd0, od0, 0)"
    using wfi wfo by (simp add: resolve_inv_def resolved_def sym)
  have "\<exists>st. efold resolve_pair ps (idd0, od0, 0) = Inr st \<and> resolve_inv idd0 od0 ?A ({} \<union> set ps) st"
    using ps(2) sA i0
    by (intro efold_set_invariant [where A = ?A and I = "resolve_inv idd0 od0 ?A"]
        resolve_pair_step [OF A]) auto
  then show ?thesis by (simp add: remove_anti_parallel_def ps(1) sA)
qed

lemma resolved_no_anti_parallel:
  "a \<noteq> b \<Longrightarrow> resolved E (anti_parallel_pairs E) a b = Some w \<Longrightarrow>
   resolved E (anti_parallel_pairs E) b a = None"
  unfolding resolved_def anti_parallel_pairs_def
  by (cases "a < b") (auto split: if_splits)

lemma resolved_diag: "resolved E (anti_parallel_pairs E) a a = E a a"
  by (simp add: resolved_def anti_parallel_pairs_def)

lemma resolved_Some_orig:
  "resolved E (anti_parallel_pairs E) a b = Some w \<Longrightarrow> E a b \<noteq> None"
  unfolding resolved_def anti_parallel_pairs_def by (auto split: if_splits)

lemma efold_unit_cases:
  "(\<And>x. x \<in> set xs \<Longrightarrow> f x () = Inr () \<or> f x () = Inl e) \<Longrightarrow>
   efold f xs () = (if \<exists>x\<in>set xs. f x () = Inl e then Inl e else Inr ())"
proof (induction xs)
  case Nil
  then show ?case by simp
next
  case (Cons x xs)
  have IH: "efold f xs () = (if \<exists>x\<in>set xs. f x () = Inl e then Inl e else Inr ())"
    using Cons.prems by (intro Cons.IH) simp
  from Cons.prems [of x] consider (ok) "f x () = Inr ()" | (bad) "f x () = Inl e" by auto
  then show ?case
  proof cases
    case ok
    then show ?thesis by (simp add: IH)
  next
    case bad
    then show ?thesis by simp
  qed
qed

lemma check_mirror_strict_eq:
  assumes wf: "wf_graph D"
    and mir: "\<And>a b w. entry D a b = Some w \<Longrightarrow> entry D' b a = Some w \<and> b \<in> set (keys D)"
  shows "check_mirror_strict l l' D D' =
     (if \<exists>a b. entry D a b \<noteq> None \<and> entry D b a \<noteq> None then Inl (AssertionError l') else Inr ())"
proof -
  let ?inner = "\<lambda>nd. (\<lambda>(ind, w) u.
           ebind (getitem2 D' ind nd) (\<lambda>w'.
           ebind (py_assert l (w' = w)) (\<lambda>u.
           ebind (getitem D ind) (\<lambda>d. py_assert l' (\<not> contains d nd)))))"
  let ?outer = "\<lambda>(nd, indict) u. efold (?inner nd) indict u"
  have inner: "?inner nd (ind, w) () =
      (if entry D ind nd \<noteq> None then Inl (AssertionError l') else Inr ())"
    if "(nd, indict) \<in> set D" "(ind, w) \<in> set indict" for nd indict ind w
  proof -
    from wf_graph_entry [OF wf that] have e: "entry D nd ind = Some w" .
    from mir [OF e] have m: "entry D' ind nd = Some w" and k: "ind \<in> set (keys D)" by auto
    from k obtain d where d: "map_of D ind = Some d"
      by (auto simp: keys_def) (metis domD domI dom_map_of_conv_image_fst fst_conv imageI)
    have c: "contains d nd \<longleftrightarrow> entry D ind nd \<noteq> None" using d by (simp add: contains_def entry_def)
    show ?thesis
      by (simp add: getitem2_Some [OF m] getitem_Some [OF d] py_assert_def c
          del: getitem2_eq_Inr getitem_eq_Inr)
  qed
  have outer: "?outer (nd, indict) () =
      (if \<exists>ind. map_of indict ind \<noteq> None \<and> entry D ind nd \<noteq> None then Inl (AssertionError l') else Inr ())"
    if e: "(nd, indict) \<in> set D" for nd indict
  proof -
    have "efold (?inner nd) indict () =
        (if \<exists>x\<in>set indict. ?inner nd x () = Inl (AssertionError l') then Inl (AssertionError l') else Inr ())"
    proof (rule efold_unit_cases)
      fix x assume x: "x \<in> set indict"
      obtain ind w where xe: "x = (ind, w)" by (cases x)
      from inner [OF e x [unfolded xe]]
      show "?inner nd x () = Inr () \<or> ?inner nd x () = Inl (AssertionError l')"
        unfolding xe by (cases "entry D ind nd = None") simp_all
    qed
    moreover have "(\<exists>x\<in>set indict. ?inner nd x () = Inl (AssertionError l')) \<longleftrightarrow>
        (\<exists>ind. map_of indict ind \<noteq> None \<and> entry D ind nd \<noteq> None)"
    proof
      assume "\<exists>x\<in>set indict. ?inner nd x () = Inl (AssertionError l')"
      then obtain ind w where x: "(ind, w) \<in> set indict" "?inner nd (ind, w) () = Inl (AssertionError l')"
        by auto
      from x(2) inner [OF e x(1)] have "entry D ind nd \<noteq> None" by (auto split: if_splits)
      moreover from x(1) have "map_of indict ind \<noteq> None"
        by (metis fst_conv image_eqI map_of_eq_None_iff)
      ultimately show "\<exists>ind. map_of indict ind \<noteq> None \<and> entry D ind nd \<noteq> None" by blast
    next
      assume "\<exists>ind. map_of indict ind \<noteq> None \<and> entry D ind nd \<noteq> None"
      then obtain ind w where i: "map_of indict ind = Some w" "entry D ind nd \<noteq> None" by auto
      from map_of_SomeD [OF i(1)] have x: "(ind, w) \<in> set indict" .
      from inner [OF e x] i(2) have "?inner nd (ind, w) () = Inl (AssertionError l')" by simp
      with x show "\<exists>x\<in>set indict. ?inner nd x () = Inl (AssertionError l')" by blast
    qed
    ultimately show ?thesis by simp
  qed
  have "efold ?outer D () =
      (if \<exists>x\<in>set D. ?outer x () = Inl (AssertionError l') then Inl (AssertionError l') else Inr ())"
  proof (rule efold_unit_cases)
    fix x assume "x \<in> set D"
    then show "?outer x () = Inr () \<or> ?outer x () = Inl (AssertionError l')"
      using outer [of "fst x" "snd x"] by (cases x) (auto split: if_splits)
  qed
  moreover have "(\<exists>x\<in>set D. ?outer x () = Inl (AssertionError l')) \<longleftrightarrow>
      (\<exists>a b. entry D a b \<noteq> None \<and> entry D b a \<noteq> None)"
  proof
    assume "\<exists>x\<in>set D. ?outer x () = Inl (AssertionError l')"
    then obtain nd indict where x: "(nd, indict) \<in> set D" "?outer (nd, indict) () = Inl (AssertionError l')"
      by auto
    from x(2) outer [OF x(1)] obtain ind where "map_of indict ind \<noteq> None" "entry D ind nd \<noteq> None"
      by (auto split: if_splits)
    moreover have "map_of D nd = Some indict" using wf x(1) by (simp add: wf_graph_def keys_def)
    ultimately have "entry D nd ind \<noteq> None \<and> entry D ind nd \<noteq> None" by (simp add: entry_def)
    then show "\<exists>a b. entry D a b \<noteq> None \<and> entry D b a \<noteq> None" by blast
  next
    assume "\<exists>a b. entry D a b \<noteq> None \<and> entry D b a \<noteq> None"
    then obtain a b where ab: "entry D a b \<noteq> None" "entry D b a \<noteq> None" by blast
    from ab(1) obtain indict where m: "map_of D a = Some indict" "map_of indict b \<noteq> None"
      by (auto simp: entry_def split: option.splits)
    from map_of_SomeD [OF m(1)] have x: "(a, indict) \<in> set D" .
    from outer [OF x] m(2) ab(2) have "?outer (a, indict) () = Inl (AssertionError l')" by auto
    with x show "\<exists>x\<in>set D. ?outer x () = Inl (AssertionError l')" by blast
  qed
  ultimately show ?thesis unfolding check_mirror_strict_def by simp
qed

subsection \<open>Buckets\<close>

definition bucket_members :: "nat set \<Rightarrow> buckets \<Rightarrow> (nat, bucket_key) dict \<Rightarrow> bool" where
  "bucket_members S b n2k =
     ((\<forall>k bs. map_of b k = Some bs \<longrightarrow>
          bs \<noteq> [] \<and> distinct bs \<and> (\<forall>m\<in>set bs. m \<in> S \<and> map_of n2k m = Some k))
    \<and> (\<forall>m\<in>S. \<exists>k bs. map_of n2k m = Some k \<and> map_of b k = Some bs \<and> m \<in> set bs))"

lemma map_of_delitem:
  "delitem d k = Inr d' \<Longrightarrow> map_of d' = (map_of d)(k := None)"
  by (auto simp: delitem_eq_Inr delete_conv')

lemma remove_from_bucket_ok:
  assumes "map_of b k = Some bs" "m \<in> set bs"
  shows "\<exists>b'. remove_from_bucket b m k = Inr b' \<and>
     map_of b' = (map_of b)(k := if removeAll m bs = [] then None else Some (removeAll m bs))"
proof (cases "removeAll m bs = []")
  case True
  have "map_of (setitem b k (removeAll m bs)) k = Some (removeAll m bs)" by simp
  from delitem_Some [OF this]
  have "remove_from_bucket b m k = Inr (AList.delete k (setitem b k (removeAll m bs)))"
    using assms True
    by (simp add: remove_from_bucket_def getitem_Some set_remove_def del: getitem_eq_Inr)
  moreover have "map_of (AList.delete k (setitem b k (removeAll m bs))) = (map_of b)(k := None)"
    by (simp add: delete_conv')
  ultimately show ?thesis using True by auto
next
  case False
  then have "remove_from_bucket b m k = Inr (setitem b k (removeAll m bs))"
    using assms
    by (simp add: remove_from_bucket_def getitem_Some set_remove_def del: getitem_eq_Inr)
  then show ?thesis using False by auto
qed

lemma map_of_insert_to_bucket:
  "map_of (insert_to_bucket b m k) =
     (map_of b)(k \<mapsto> (case map_of b k of Some s \<Rightarrow> set_add s m | None \<Rightarrow> [m]))"
  by (simp add: insert_to_bucket_def split: option.splits)

lemma pop_from_bucket_ok:
  assumes "map_of b k = Some bs" "bs \<noteq> []" "distinct bs"
  shows "\<exists>n b'. pop_from_bucket rt step b k = Inr (n, b') \<and> n \<in> set bs \<and>
     map_of b' = (map_of b)(k := if removeAll n bs = [] then None else Some (removeAll n bs))"
proof -
  let ?i = "set_pop rt step bs mod length bs"
  let ?n = "bs ! ?i"
  let ?s' = "take ?i bs @ drop (Suc ?i) bs"
  have i: "?i < length bs" using assms(2) by simp
  then have n: "?n \<in> set bs" by simp
  have bs: "bs = take ?i bs @ ?n # drop (Suc ?i) bs" using i by (rule id_take_nth_drop)
  have "distinct (take ?i bs @ ?n # drop (Suc ?i) bs)" using assms(3) bs by simp
  then have "?n \<notin> set (take ?i bs)" "?n \<notin> set (drop (Suc ?i) bs)" by auto
  then have "removeAll ?n (take ?i bs @ ?n # drop (Suc ?i) bs) = ?s'" by simp
  then have s': "?s' = removeAll ?n bs" using bs by simp
  have pop: "pop_from_bucket rt step b k =
      (if ?s' = [] then ebind (delitem (setitem b k ?s') k) (\<lambda>b. Inr (?n, b))
       else Inr (?n, setitem b k ?s'))"
    using assms(1,2) by (simp add: pop_from_bucket_def getitem_Some Let_def del: getitem_eq_Inr)
  show ?thesis
  proof (cases "?s' = []")
    case True
    have "map_of (setitem b k ?s') k = Some ?s'" by simp
    from delitem_Some [OF this]
    have "pop_from_bucket rt step b k = Inr (?n, AList.delete k (setitem b k ?s'))"
      unfolding pop by (simp add: True)
    moreover have "map_of (AList.delete k (setitem b k ?s')) = (map_of b)(k := None)"
      by (simp add: delete_conv')
    moreover have "removeAll ?n bs = []" using True s' by simp
    ultimately show ?thesis using n by (intro exI [of _ ?n]) (simp del: map_of_setitem)
  next
    case False
    then have "pop_from_bucket rt step b k = Inr (?n, setitem b k ?s')"
      unfolding pop by (simp only: if_False)
    moreover have "removeAll ?n bs \<noteq> []" using False s' by simp
    moreover have "map_of (setitem b k ?s') = (map_of b)(k \<mapsto> removeAll ?n bs)"
      unfolding s' by simp
    ultimately show ?thesis using n by (intro exI [of _ ?n]) (simp del: map_of_setitem)
  qed
qed

lemma bucket_members_pop:
  assumes bm: "bucket_members S b n2k" and k: "map_of b k = Some bs" and n: "n \<in> set bs"
    and b': "map_of b' = (map_of b)(k := if removeAll n bs = [] then None else Some (removeAll n bs))"
  shows "bucket_members (S - {n}) b' n2k"
  unfolding bucket_members_def
proof (rule conjI; intro allI impI ballI)
  fix k' bs' assume a: "map_of b' k' = Some bs'"
  show "bs' \<noteq> [] \<and> distinct bs' \<and> (\<forall>m\<in>set bs'. m \<in> S - {n} \<and> map_of n2k m = Some k')"
  proof (cases "k' = k")
    case True
    with a b' have "bs' = removeAll n bs" "removeAll n bs \<noteq> []" by (auto split: if_splits)
    moreover from bm k have "distinct bs" "\<forall>m\<in>set bs. m \<in> S \<and> map_of n2k m = Some k"
      by (auto simp: bucket_members_def)
    ultimately show ?thesis using True by (auto simp: distinct_removeAll)
  next
    case False
    with a b' have m: "map_of b k' = Some bs'" by simp
    with bm have 1: "bs' \<noteq> []" "distinct bs'" "\<forall>m\<in>set bs'. m \<in> S \<and> map_of n2k m = Some k'"
      by (auto simp: bucket_members_def)
    have "n \<notin> set bs'"
    proof
      assume "n \<in> set bs'"
      with 1 have "map_of n2k n = Some k'" by simp
      moreover from bm k n have "map_of n2k n = Some k" by (auto simp: bucket_members_def)
      ultimately show False using False by simp
    qed
    with 1 show ?thesis by auto
  qed
next
  fix m assume m: "m \<in> S - {n}"
  with bm obtain k' bs' where 1: "map_of n2k m = Some k'" "map_of b k' = Some bs'" "m \<in> set bs'"
    unfolding bucket_members_def by blast
  show "\<exists>k bs. map_of n2k m = Some k \<and> map_of b' k = Some bs \<and> m \<in> set bs"
  proof (cases "k' = k")
    case True
    with 1 k have "bs' = bs" by simp
    with 1 m have "m \<in> set (removeAll n bs)" by simp
    then have "removeAll n bs \<noteq> []" by (metis empty_iff empty_set)
    with b' have "map_of b' k = Some (removeAll n bs)" by simp
    with 1 True \<open>m \<in> set (removeAll n bs)\<close> show ?thesis by blast
  next
    case False
    with b' 1 have "map_of b' k' = Some bs'" by simp
    with 1 show ?thesis by blast
  qed
qed

lemma bucket_members_insert:
  assumes bm: "bucket_members S b n2k" and m: "m \<notin> S"
  shows "bucket_members (insert m S) (insert_to_bucket b m k) (setitem n2k m k)"
  unfolding bucket_members_def
proof (rule conjI; intro allI impI ballI)
  fix k' bs' assume a: "map_of (insert_to_bucket b m k) k' = Some bs'"
  show "bs' \<noteq> [] \<and> distinct bs' \<and>
     (\<forall>x\<in>set bs'. x \<in> insert m S \<and> map_of (setitem n2k m k) x = Some k')"
  proof (cases "k' = k")
    case True
    show ?thesis
    proof (cases "map_of b k")
      case None
      with a True have "bs' = [m]" by (simp add: map_of_insert_to_bucket)
      then show ?thesis using True by simp
    next
      case (Some s)
      with bm have s: "s \<noteq> []" "distinct s" "\<forall>x\<in>set s. x \<in> S \<and> map_of n2k x = Some k"
        by (auto simp: bucket_members_def)
      with m have "m \<notin> set s" by auto
      with a True Some have "bs' = s @ [m]" by (simp add: map_of_insert_to_bucket set_add_def)
      with s \<open>m \<notin> set s\<close> True show ?thesis by auto
    qed
  next
    case False
    with a have "map_of b k' = Some bs'" by (simp add: map_of_insert_to_bucket)
    with bm have s: "bs' \<noteq> []" "distinct bs'" "\<forall>x\<in>set bs'. x \<in> S \<and> map_of n2k x = Some k'"
      by (auto simp: bucket_members_def)
    with m have "m \<notin> set bs'" by auto
    with s show ?thesis by auto
  qed
next
  fix x assume x: "x \<in> insert m S"
  show "\<exists>k' bs. map_of (setitem n2k m k) x = Some k' \<and> map_of (insert_to_bucket b m k) k' = Some bs \<and> x \<in> set bs"
  proof (cases "x = m")
    case True
    then show ?thesis
      by (cases "map_of b k") (auto simp: map_of_insert_to_bucket set_add_def)
  next
    case False
    with x bm obtain k' bs where 1: "map_of n2k x = Some k'" "map_of b k' = Some bs" "x \<in> set bs"
      unfolding bucket_members_def by blast
    then show ?thesis using False
      by (cases "k' = k") (auto simp: map_of_insert_to_bucket set_add_def)
  qed
qed

lemma rekey_node_ok:
  assumes bm: "bucket_members S b n2k" and m: "m \<in> S"
  shows "\<exists>b'. rekey_node idd od m (b, n2k) =
           Inr (b', setitem n2k m (compute_bucket_key_for_node idd od m))
         \<and> bucket_members S b' (setitem n2k m (compute_bucket_key_for_node idd od m))"
proof -
  from bm m obtain k bs where 1: "map_of n2k m = Some k" "map_of b k = Some bs" "m \<in> set bs"
    unfolding bucket_members_def by blast
  from remove_from_bucket_ok [OF 1(2,3)] obtain b1 where b1: "remove_from_bucket b m k = Inr b1"
    "map_of b1 = (map_of b)(k := if removeAll m bs = [] then None else Some (removeAll m bs))"
    by blast
  from bucket_members_pop [OF bm 1(2,3) b1(2)] have bm1: "bucket_members (S - {m}) b1 n2k" .
  let ?k = "compute_bucket_key_for_node idd od m"
  have "bucket_members (insert m (S - {m})) (insert_to_bucket b1 m ?k) (setitem n2k m ?k)"
    using bm1 by (rule bucket_members_insert) simp
  moreover have "insert m (S - {m}) = S" using m by auto
  moreover have "rekey_node idd od m (b, n2k) = Inr (insert_to_bucket b1 m ?k, setitem n2k m ?k)"
    using 1(1) b1(1) by (simp add: rekey_node_def getitem_Some Let_def del: getitem_eq_Inr)
  ultimately show ?thesis by auto
qed

subsection \<open>Removing a node from the graph\<close>

definition graph_ok :: "graph \<Rightarrow> graph \<Rightarrow> bool" where
  "graph_ok idd od =
     (wf_graph idd \<and> wf_graph od \<and> set (keys idd) = set (keys od)
    \<and> (\<forall>a b. entry od a b = entry idd b a)
    \<and> (\<forall>a b w. entry od a b = Some w \<longrightarrow> b \<in> set (keys od))
    \<and> (\<forall>a b w. entry od a b = Some w \<longrightarrow> entry od b a = None))"

definition remove_node :: "nat \<Rightarrow> graph \<Rightarrow> graph" where
  "remove_node n D = AList.delete n (map (\<lambda>(a, d). (a, AList.delete n d)) D)"

definition bucket_keys_ok :: "nat set \<Rightarrow> graph \<Rightarrow> graph \<Rightarrow> (nat, bucket_key) dict \<Rightarrow> bool" where
  "bucket_keys_ok T idd od n2k =
     (\<forall>m\<in>T. map_of n2k m = Some (compute_bucket_key_for_node idd od m))"

lemma map_of_remove_node:
  "map_of (remove_node n D) m = (if m = n then None else map_option (AList.delete n) (map_of D m))"
  by (simp add: remove_node_def delete_conv' map_of_map)

lemma entry_remove_node:
  "entry (remove_node n D) a b = (if a = n \<or> b = n then None else entry D a b)"
  by (auto simp: entry_def map_of_remove_node delete_conv' split: option.splits)

lemma keys_remove_node: "set (keys (remove_node n D)) = set (keys D) - {n}"
  by (auto simp: remove_node_def keys_def AList.delete_eq image_iff) force+

lemma wf_graph_remove_node: "wf_graph D \<Longrightarrow> wf_graph (remove_node n D)"
proof -
  assume wf: "wf_graph D"
  have "map fst (map (\<lambda>(a, d). (a, AList.delete n d)) D) = map fst D" by (induction D) auto
  moreover have "distinct (map fst D)" using wf by (simp add: wf_graph_def keys_def)
  ultimately have "distinct (map fst (map (\<lambda>(a, d). (a, AList.delete n d)) D))" by (simp only:)
  then have "distinct (keys (remove_node n D))"
    unfolding remove_node_def keys_def by (rule distinct_delete)
  moreover have "distinct (keys d)" if "d \<in> set (values_of (remove_node n D))" for d
  proof -
    from that obtain a d0 where "(a, d0) \<in> set D" "d = AList.delete n d0"
      by (auto simp: remove_node_def values_of_def AList.delete_eq)
    with wf show ?thesis by (force simp: wf_graph_def values_of_def intro: distinct_delete_keys)
  qed
  ultimately show ?thesis by (simp add: wf_graph_def)
qed

lemma graph_ok_remove_node:
  assumes "graph_ok idd od"
  shows "graph_ok (remove_node n idd) (remove_node n od)"
  using assms unfolding graph_ok_def
  by (auto simp: wf_graph_remove_node keys_remove_node entry_remove_node)

lemma setitem_map_existing:
  "distinct (keys D) \<Longrightarrow> map_of D a = Some d \<Longrightarrow>
   setitem D a (f d) = map (\<lambda>(x, y). (x, if x = a then f y else y)) D"
proof (induction D)
  case Nil
  then show ?case by simp
next
  case (Cons p D)
  obtain x y where p: "p = (x, y)" by (cases p)
  show ?case
  proof (cases "x = a")
    case True
    with Cons.prems p have y: "y = d" and na: "a \<notin> fst ` set D" by (auto simp: keys_def)
    have "map (\<lambda>(x, y). (x, if x = a then f y else y)) D = D"
      using na by (intro map_idI) force
    then show ?thesis using True y by (simp add: p setitem_def)
  next
    case False
    with Cons.prems p have "distinct (keys D)" "map_of D a = Some d" by (auto simp: keys_def)
    from Cons.IH [OF this] show ?thesis using False by (simp add: p setitem_def)
  qed
qed

lemma efold_delitem2:
  assumes "wf_graph D" "distinct ks" "\<forall>a\<in>set ks. entry D a n \<noteq> None"
  shows "efold (\<lambda>a D. delitem2 D a n) ks D =
     Inr (map (\<lambda>(x, y). (x, if x \<in> set ks then AList.delete n y else y)) D)"
  using assms
proof (induction ks arbitrary: D)
  case Nil
  then show ?case by (simp add: case_prod_unfold)
next
  case (Cons a ks)
  from Cons.prems(3) obtain d v where d: "map_of D a = Some d" "map_of d n = Some v"
    by (auto simp: entry_def split: option.splits)
  then have e: "entry D a n = Some v" by (simp add: entry_def)
  let ?D1 = "map (\<lambda>(x, y). (x, if x = a then AList.delete n y else y)) D"
  have s: "setitem D a (AList.delete n d) = ?D1"
    using Cons.prems(1) d(1) by (intro setitem_map_existing) (simp add: wf_graph_def)
  have run: "delitem2 D a n = Inr ?D1"
    using d s by (simp add: delitem2_def getitem_Some delitem_Some del: getitem_eq_Inr)
  from delitem2_ok [OF Cons.prems(1) e] run have wf1: "wf_graph ?D1"
    and e1: "\<And>x y. entry ?D1 x y = (if x = a \<and> y = n then None else entry D x y)" by auto
  have pre: "\<forall>a'\<in>set ks. entry ?D1 a' n \<noteq> None"
    using Cons.prems(2,3) by (auto simp: e1)
  have "efold (\<lambda>a D. delitem2 D a n) ks ?D1 =
     Inr (map (\<lambda>(x, y). (x, if x \<in> set ks then AList.delete n y else y)) ?D1)"
    using wf1 Cons.prems(2) pre by (intro Cons.IH) auto
  moreover have "map (\<lambda>(x, y). (x, if x \<in> set ks then AList.delete n y else y)) ?D1 =
     map (\<lambda>(x, y). (x, if x \<in> set (a # ks) then AList.delete n y else y)) D"
    using Cons.prems(2) by (auto simp: case_prod_unfold)
  ultimately show ?case by (simp add: run)
qed

lemma map_delete_all:
  assumes "wf_graph D" "\<And>x. entry D x n \<noteq> None \<Longrightarrow> x \<in> K"
  shows "map (\<lambda>(x, y). (x, if x \<in> K then AList.delete n y else y)) D =
         map (\<lambda>(a, d). (a, AList.delete n d)) D"
proof (rule map_cong [OF refl])
  fix p assume p: "p \<in> set D"
  obtain x y where pe: "p = (x, y)" by (cases p)
  have "AList.delete n y = y" if "x \<notin> K"
  proof -
    from that assms(2) have "entry D x n = None" by blast
    moreover have "map_of D x = Some y" using assms(1) p by (simp add: pe wf_graph_def keys_def)
    ultimately have "map_of y n = None" by (simp add: entry_def)
    then show ?thesis by (simp add: map_of_eq_None_iff)
  qed
  then show "(case p of (x, y) \<Rightarrow> (x, if x \<in> K then AList.delete n y else y)) =
      (case p of (a, d) \<Rightarrow> (a, AList.delete n d))"
    by (simp add: pe)
qed

lemma keys_of_map_of: "distinct (keys d) \<Longrightarrow> set (keys d) = {k. map_of d k \<noteq> None}"
  by (auto simp: keys_def map_of_eq_None_iff)

lemma remove_graph_ok:
  assumes g: "graph_ok idd od" and n: "n \<in> set (keys idd)"
  shows "\<exists>in_n out_n od1 id1.
      map_of idd n = Some in_n \<and> map_of od n = Some out_n
    \<and> efold (\<lambda>inode od. delitem2 od inode n) (keys in_n) od = Inr od1
    \<and> map_of od1 n = Some out_n
    \<and> efold (\<lambda>onode idd. delitem2 idd onode n) (keys out_n) idd = Inr id1
    \<and> map_of id1 n = Some in_n
    \<and> delitem id1 n = Inr (remove_node n idd)
    \<and> delitem od1 n = Inr (remove_node n od)"
proof -
  from g have wfi: "wf_graph idd" and wfo: "wf_graph od" and ks: "set (keys idd) = set (keys od)"
    and sym: "\<And>a b. entry od a b = entry idd b a"
    and noap: "\<And>a b w. entry od a b = Some w \<Longrightarrow> entry od b a = None"
    unfolding graph_ok_def by blast+
  from n obtain in_n where in_n: "map_of idd n = Some in_n"
    by (auto simp: keys_def) (metis domD domI dom_map_of_conv_image_fst fst_conv imageI)
  from n ks obtain out_n where out_n: "map_of od n = Some out_n"
    by (auto simp: keys_def) (metis domD domI dom_map_of_conv_image_fst fst_conv imageI)
  have din: "distinct (keys in_n)" using wfi in_n by (rule wf_graph_inner)
  have dout: "distinct (keys out_n)" using wfo out_n by (rule wf_graph_inner)
  have "entry idd n a = map_of in_n a" for a using in_n by (simp add: entry_def)
  then have kin: "a \<in> set (keys in_n) \<longleftrightarrow> entry od a n \<noteq> None" for a
    by (simp add: keys_of_map_of [OF din] sym)
  have "entry od n a = map_of out_n a" for a using out_n by (simp add: entry_def)
  then have kout: "a \<in> set (keys out_n) \<longleftrightarrow> entry idd a n \<noteq> None" for a
    by (simp add: keys_of_map_of [OF dout] sym [symmetric])
  have self_o: "entry od n n = None"
  proof (cases "entry od n n")
    case (Some w)
    from noap [OF Some] Some show ?thesis by simp
  qed simp
  then have self_i: "entry idd n n = None" by (simp add: sym [symmetric])
  let ?od1 = "map (\<lambda>(a, d). (a, AList.delete n d)) od"
  let ?id1 = "map (\<lambda>(a, d). (a, AList.delete n d)) idd"
  have "efold (\<lambda>inode od. delitem2 od inode n) (keys in_n) od =
     Inr (map (\<lambda>(x, y). (x, if x \<in> set (keys in_n) then AList.delete n y else y)) od)"
    using wfo din by (rule efold_delitem2) (simp add: kin)
  also have "map (\<lambda>(x, y). (x, if x \<in> set (keys in_n) then AList.delete n y else y)) od = ?od1"
    using wfo by (rule map_delete_all) (simp add: kin)
  finally have 1: "efold (\<lambda>inode od. delitem2 od inode n) (keys in_n) od = Inr ?od1" .
  have "map_of out_n n = None" using self_o out_n by (simp add: entry_def)
  then have "AList.delete n out_n = out_n" by (simp add: map_of_eq_None_iff)
  then have 2: "map_of ?od1 n = Some out_n" using out_n by (simp add: map_of_map)
  have "efold (\<lambda>onode idd. delitem2 idd onode n) (keys out_n) idd =
     Inr (map (\<lambda>(x, y). (x, if x \<in> set (keys out_n) then AList.delete n y else y)) idd)"
    using wfi dout by (rule efold_delitem2) (simp add: kout)
  also have "map (\<lambda>(x, y). (x, if x \<in> set (keys out_n) then AList.delete n y else y)) idd = ?id1"
    using wfi by (rule map_delete_all) (simp add: kout)
  finally have 3: "efold (\<lambda>onode idd. delitem2 idd onode n) (keys out_n) idd = Inr ?id1" .
  have "map_of in_n n = None" using self_i in_n by (simp add: entry_def)
  then have "AList.delete n in_n = in_n" by (simp add: map_of_eq_None_iff)
  then have 4: "map_of ?id1 n = Some in_n" using in_n by (simp add: map_of_map)
  have 5: "delitem ?id1 n = Inr (remove_node n idd)"
    using delitem_Some [OF 4] by (simp add: remove_node_def)
  have 6: "delitem ?od1 n = Inr (remove_node n od)"
    using delitem_Some [OF 2] by (simp add: remove_node_def)
  from in_n out_n 1 2 3 4 5 6 show ?thesis by blast
qed

lemma compute_key_unchanged:
  assumes "m \<noteq> n" "entry od m n = None" "entry idd m n = None"
  shows "compute_bucket_key_for_node (remove_node n idd) (remove_node n od) m =
         compute_bucket_key_for_node idd od m"
proof -
  have "map_of (remove_node n D) m = map_of D m" if "entry D m n = None" for D :: graph
  proof (cases "map_of D m")
    case None
    then show ?thesis using assms(1) by (simp add: map_of_remove_node)
  next
    case (Some d)
    with that have "map_of d n = None" by (simp add: entry_def)
    then have "AList.delete n d = d" by (simp add: map_of_eq_None_iff)
    then show ?thesis using assms(1) Some by (simp add: map_of_remove_node)
  qed
  from this [OF assms(2)] this [OF assms(3)] show ?thesis
    unfolding compute_bucket_key_for_node_def by (simp only:)
qed

definition rekey_inv ::
  "nat set \<Rightarrow> graph \<Rightarrow> graph \<Rightarrow> (nat, bucket_key) dict \<Rightarrow> nat set
     \<Rightarrow> buckets \<times> (nat, bucket_key) dict \<Rightarrow> bool" where
  "rekey_inv S idd od n2k0 T bk =
     (case bk of (b, n2k) \<Rightarrow>
        bucket_members S b n2k
      \<and> (\<forall>m\<in>T. map_of n2k m = Some (compute_bucket_key_for_node idd od m))
      \<and> (\<forall>m. m \<notin> T \<longrightarrow> map_of n2k m = map_of n2k0 m))"

lemma rekey_step:
  assumes "rekey_inv S idd od n2k0 T bk" "m \<in> S" "m \<notin> T"
  shows "\<exists>bk'. rekey_node idd od m bk = Inr bk' \<and> rekey_inv S idd od n2k0 (insert m T) bk'"
proof -
  obtain b n2k where bk: "bk = (b, n2k)" by (cases bk)
  from assms(1) have bm: "bucket_members S b n2k"
    and t: "\<forall>x\<in>T. map_of n2k x = Some (compute_bucket_key_for_node idd od x)"
    and o: "\<forall>x. x \<notin> T \<longrightarrow> map_of n2k x = map_of n2k0 x"
    by (auto simp: rekey_inv_def bk)
  let ?k = "compute_bucket_key_for_node idd od m"
  from rekey_node_ok [OF bm assms(2), of idd od] obtain b' where
    r: "rekey_node idd od m (b, n2k) = Inr (b', setitem n2k m ?k)"
    and bm': "bucket_members S b' (setitem n2k m ?k)" by blast
  have "rekey_inv S idd od n2k0 (insert m T) (b', setitem n2k m ?k)"
    unfolding rekey_inv_def using bm' t o assms(3) by auto
  with r show ?thesis by (auto simp: bk)
qed

lemma update_removed_node_ok:
  assumes g: "graph_ok (input_dict s) (output_dict s)"
    and n: "n \<in> set (keys (input_dict s))"
    and bm: "bucket_members (set (keys (input_dict s)) - {n}) (buckets s) (node_to_bucket_key s)"
    and bk: "bucket_keys_ok (set (keys (input_dict s)) - {n}) (input_dict s) (output_dict s)
               (node_to_bucket_key s)"
  shows "\<exists>s'. update_removed_node rt s n = Inr s'
     \<and> input_dict s' = remove_node n (input_dict s)
     \<and> output_dict s' = remove_node n (output_dict s)
     \<and> bucket_members (set (keys (input_dict s)) - {n}) (buckets s') (node_to_bucket_key s')
     \<and> bucket_keys_ok (set (keys (input_dict s)) - {n}) (input_dict s') (output_dict s')
          (node_to_bucket_key s')
     \<and> left_list s' = left_list s \<and> right_list s' = right_list s
     \<and> feedback_val s' = feedback_val s"
proof -
  let ?idd = "input_dict s" and ?od = "output_dict s"
  let ?R = "set (keys ?idd) - {n}"
  let ?id2 = "remove_node n ?idd" and ?od2 = "remove_node n ?od"
  from remove_graph_ok [OF g n] obtain in_n out_n od1 id1 where
    in_n: "map_of ?idd n = Some in_n" and out_n: "map_of ?od n = Some out_n"
    and 1: "efold (\<lambda>inode od. delitem2 od inode n) (keys in_n) ?od = Inr od1"
    and 2: "map_of od1 n = Some out_n"
    and 3: "efold (\<lambda>onode idd. delitem2 idd onode n) (keys out_n) ?idd = Inr id1"
    and 4: "map_of id1 n = Some in_n"
    and 5: "delitem id1 n = Inr ?id2" and 6: "delitem od1 n = Inr ?od2"
    by blast
  from g have wfi: "wf_graph ?idd" and wfo: "wf_graph ?od" and ks: "set (keys ?idd) = set (keys ?od)"
    and sym: "\<And>a b. entry ?od a b = entry ?idd b a"
    and closed: "\<And>a b w. entry ?od a b = Some w \<Longrightarrow> b \<in> set (keys ?od)"
    and noap: "\<And>a b w. entry ?od a b = Some w \<Longrightarrow> entry ?od b a = None"
    unfolding graph_ok_def by blast+
  have din: "distinct (keys in_n)" using wfi in_n by (rule wf_graph_inner)
  have dout: "distinct (keys out_n)" using wfo out_n by (rule wf_graph_inner)
  have ein: "entry ?idd n a = map_of in_n a" for a using in_n by (simp add: entry_def)
  have eout: "entry ?od n a = map_of out_n a" for a using out_n by (simp add: entry_def)
  have kin: "a \<in> set (keys in_n) \<longleftrightarrow> entry ?od a n \<noteq> None" for a
    by (simp add: keys_of_map_of [OF din] sym ein)
  have kout: "a \<in> set (keys out_n) \<longleftrightarrow> entry ?idd a n \<noteq> None" for a
    by (simp add: keys_of_map_of [OF dout] sym [symmetric] eout)
  have self_o: "entry ?od n n = None"
  proof (cases "entry ?od n n")
    case (Some w)
    from noap [OF Some] Some show ?thesis by simp
  qed simp
  let ?io = "iter_ids rt (length (left_list s) + length (right_list s))
      (remdups (keys in_n @ keys out_n))"
  have io_sub: "set ?io \<subseteq> ?R"
  proof
    fix a assume "a \<in> set ?io"
    then consider "entry ?od a n \<noteq> None" | "entry ?od n a \<noteq> None"
      using kin kout sym by auto
    then show "a \<in> ?R"
    proof cases
      case 1
      then have "a \<in> set (keys ?od)" by (auto dest: entry_keys)
      moreover from 1 self_o have "a \<noteq> n" by auto
      ultimately show ?thesis by (simp add: ks)
    next
      case 2
      then have "a \<in> set (keys ?od)" by (auto dest: closed)
      moreover from 2 self_o have "a \<noteq> n" by auto
      ultimately show ?thesis by (simp add: ks)
    qed
  qed
  have i0: "rekey_inv ?R ?id2 ?od2 (node_to_bucket_key s) {} (buckets s, node_to_bucket_key s)"
    using bm by (simp add: rekey_inv_def)
  have "\<exists>bk'. efold (rekey_node ?id2 ?od2) ?io (buckets s, node_to_bucket_key s) = Inr bk'
      \<and> rekey_inv ?R ?id2 ?od2 (node_to_bucket_key s) ({} \<union> set ?io) bk'"
    using io_sub i0
    by (intro efold_set_invariant [where A = ?R and I = "rekey_inv ?R ?id2 ?od2 (node_to_bucket_key s)"]
        rekey_step) auto
  then obtain b' n2k' where
    7: "efold (rekey_node ?id2 ?od2) ?io (buckets s, node_to_bucket_key s) = Inr (b', n2k')"
    and bm': "bucket_members ?R b' n2k'"
    and t: "\<forall>m\<in>set ?io. map_of n2k' m = Some (compute_bucket_key_for_node ?id2 ?od2 m)"
    and o: "\<forall>m. m \<notin> set ?io \<longrightarrow> map_of n2k' m = map_of (node_to_bucket_key s) m"
    by (auto simp: rekey_inv_def)
  let ?s' = "s\<lparr>input_dict := ?id2, output_dict := ?od2, buckets := b', node_to_bucket_key := n2k'\<rparr>"
  have run: "update_removed_node rt s n = Inr ?s'"
    unfolding update_removed_node_def
    by (simp add: getitem_Some [OF in_n] 1 getitem_Some [OF 2] 3 getitem_Some [OF 4] 5 6 7
        del: getitem_eq_Inr)
  have bk': "bucket_keys_ok ?R ?id2 ?od2 n2k'"
    unfolding bucket_keys_ok_def
  proof
    fix m assume m: "m \<in> ?R"
    show "map_of n2k' m = Some (compute_bucket_key_for_node ?id2 ?od2 m)"
    proof (cases "m \<in> set ?io")
      case True
      with t show ?thesis by simp
    next
      case False
      then have "entry ?od m n = None" "entry ?idd m n = None" using kin kout by auto
      with m have "compute_bucket_key_for_node ?id2 ?od2 m =
          compute_bucket_key_for_node ?idd ?od m"
        by (intro compute_key_unchanged) auto
      moreover from bk m have "map_of (node_to_bucket_key s) m =
          Some (compute_bucket_key_for_node ?idd ?od m)" by (simp add: bucket_keys_ok_def)
      ultimately show ?thesis using o False by simp
    qed
  qed
  from run bm' bk' show ?thesis by (intro exI [of _ ?s']) simp
qed

subsection \<open>The invariant of the main loop\<close>

definition loop_inv :: "nat \<Rightarrow> state \<Rightarrow> bool" where
  "loop_inv N s =
     (graph_ok (input_dict s) (output_dict s)
    \<and> bucket_members (set (keys (input_dict s))) (buckets s) (node_to_bucket_key s)
    \<and> bucket_keys_ok (set (keys (input_dict s))) (input_dict s) (output_dict s)
         (node_to_bucket_key s)
    \<and> distinct (left_list s @ right_list s)
    \<and> set (left_list s @ right_list s) \<inter> set (keys (input_dict s)) = {}
    \<and> set (left_list s @ right_list s) \<union> set (keys (input_dict s)) = {0..<N})"

lemma loop_inv_card:
  assumes "loop_inv N s"
  shows "length (left_list s) + length (right_list s) + card (set (keys (input_dict s))) = N"
proof -
  let ?P = "set (left_list s @ right_list s)" and ?R = "set (keys (input_dict s))"
  from assms have d: "distinct (left_list s @ right_list s)" and i: "?P \<inter> ?R = {}"
    and u: "?P \<union> ?R = {0..<N}" by (auto simp: loop_inv_def)
  have "card (?P \<union> ?R) = card ?P + card ?R" using i by (intro card_Un_disjoint) auto
  moreover have "card ?P = length (left_list s @ right_list s)" using d by (rule distinct_card)
  ultimately show ?thesis using u by simp
qed

lemma set_delta_keys: "set (delta_keys b) = {d. Delta d \<in> fst ` set b}"
  by (induction b rule: delta_keys.induct) (auto simp: image_iff)

lemma key_Sinks:
  "compute_bucket_key_for_node idd od n = Sinks \<longleftrightarrow> (map_of od n = None \<or> map_of od n = Some [])"
  by (auto simp: compute_bucket_key_for_node_def split: option.splits)

lemma key_Sources:
  "compute_bucket_key_for_node idd od n = Sources \<Longrightarrow> map_of idd n = None \<or> map_of idd n = Some []"
  by (auto simp: compute_bucket_key_for_node_def split: option.splits if_splits)

lemma in_keys_map_of: "n \<in> set (keys D) \<Longrightarrow> \<exists>d. map_of D n = Some d"
  by (auto simp: keys_def) (metis domD domI dom_map_of_conv_image_fst fst_conv imageI)

lemma loop_inv_after_removal:
  assumes inv: "loop_inv N s" and n: "n \<in> set (keys (input_dict s))"
    and s1: "input_dict s1 = input_dict s" "output_dict s1 = output_dict s"
      "node_to_bucket_key s1 = node_to_bucket_key s"
    and bm: "bucket_members (set (keys (input_dict s)) - {n}) (buckets s1) (node_to_bucket_key s)"
    and lists: "left_list s1 @ right_list s1 = left_list s @ right_list s @ [n]
              \<or> left_list s1 @ right_list s1 = left_list s @ [n] @ right_list s"
  shows "\<exists>s'. update_removed_node rt s1 n = Inr s' \<and> loop_inv N s'
     \<and> input_dict s' = remove_node n (input_dict s)
     \<and> output_dict s' = remove_node n (output_dict s)
     \<and> left_list s' = left_list s1 \<and> right_list s' = right_list s1
     \<and> feedback_val s' = feedback_val s1"
proof -
  let ?R = "set (keys (input_dict s))"
  from inv have g: "graph_ok (input_dict s) (output_dict s)"
    and bk: "bucket_keys_ok ?R (input_dict s) (output_dict s) (node_to_bucket_key s)"
    and d: "distinct (left_list s @ right_list s)"
    and i: "set (left_list s @ right_list s) \<inter> ?R = {}"
    and u: "set (left_list s @ right_list s) \<union> ?R = {0..<N}"
    by (auto simp: loop_inv_def)
  have bk1: "bucket_keys_ok (?R - {n}) (input_dict s) (output_dict s) (node_to_bucket_key s)"
    using bk by (simp add: bucket_keys_ok_def)
  from update_removed_node_ok [of s1 n rt] g n bm bk1 s1 obtain s' where
    r: "update_removed_node rt s1 n = Inr s'"
    and i': "input_dict s' = remove_node n (input_dict s)"
    and o': "output_dict s' = remove_node n (output_dict s)"
    and bm': "bucket_members (?R - {n}) (buckets s') (node_to_bucket_key s')"
    and bk': "bucket_keys_ok (?R - {n}) (input_dict s') (output_dict s') (node_to_bucket_key s')"
    and l: "left_list s' = left_list s1" "right_list s' = right_list s1"
      "feedback_val s' = feedback_val s1"
    by auto
  have k': "set (keys (input_dict s')) = ?R - {n}" by (simp add: i' keys_remove_node)
  have g': "graph_ok (input_dict s') (output_dict s')"
    unfolding i' o' using g by (rule graph_ok_remove_node)
  have nl: "n \<notin> set (left_list s @ right_list s)" using n i by auto
  have "set (left_list s1 @ right_list s1) = insert n (set (left_list s @ right_list s))
      \<and> distinct (left_list s1 @ right_list s1)"
  proof (rule disjE [OF lists])
    assume e: "left_list s1 @ right_list s1 = left_list s @ right_list s @ [n]"
    show ?thesis unfolding e using d nl by auto
  next
    assume e: "left_list s1 @ right_list s1 = left_list s @ [n] @ right_list s"
    show ?thesis unfolding e using d nl by auto
  qed
  then have ls: "set (left_list s' @ right_list s') = insert n (set (left_list s @ right_list s))"
    and ld: "distinct (left_list s' @ right_list s')"
    unfolding l by blast+
  have i2: "insert n (set (left_list s @ right_list s)) \<inter> (?R - {n}) = {}" using i by auto
  have u2: "insert n (set (left_list s @ right_list s)) \<union> (?R - {n}) = {0..<N}" using u n by auto
  have "loop_inv N s'"
    unfolding loop_inv_def k' ls using g' bm' bk' ld i2 u2 by (simp only: k' simp_thms)
  with r i' o' l show ?thesis by blast
qed

lemma bucket_truthy_iff:
  "bucket_truthy b k \<longleftrightarrow> (\<exists>bs. map_of b k = Some bs \<and> bs \<noteq> [])"
  by (auto simp: bucket_truthy_def split: option.splits)

lemma loop_body_ok:
  assumes inv: "loop_inv N s" and lt: "length (left_list s) + length (right_list s) < N"
  shows "\<exists>s' n. loop_body rt s = Inr s' \<and> loop_inv N s' \<and> n \<in> set (keys (input_dict s))
     \<and> input_dict s' = remove_node n (input_dict s)
     \<and> output_dict s' = remove_node n (output_dict s)
     \<and> (if bucket_truthy (buckets s) Sinks then
           map_of (output_dict s) n = Some [] \<and> left_list s' = left_list s
           \<and> right_list s' = right_list s @ [n] \<and> feedback_val s' = feedback_val s
         else if bucket_truthy (buckets s) Sources then
           map_of (input_dict s) n = Some [] \<and> left_list s' = left_list s @ [n]
           \<and> right_list s' = right_list s \<and> feedback_val s' = feedback_val s
         else
           left_list s' = left_list s @ [n] \<and> right_list s' = right_list s
           \<and> feedback_val s' =
               feedback_val s + sum_list (values_of (the (map_of (input_dict s) n))))"
proof -
  let ?R = "set (keys (input_dict s))"
  let ?step = "length (left_list s) + length (right_list s)"
  from inv have g: "graph_ok (input_dict s) (output_dict s)"
    and bm: "bucket_members ?R (buckets s) (node_to_bucket_key s)"
    and bk: "bucket_keys_ok ?R (input_dict s) (output_dict s) (node_to_bucket_key s)"
    by (auto simp: loop_inv_def)
  from g have ks: "set (keys (input_dict s)) = set (keys (output_dict s))"
    unfolding graph_ok_def by blast
  have key: "compute_bucket_key_for_node (input_dict s) (output_dict s) n = k"
    if "map_of (buckets s) k = Some bs" "n \<in> set bs" for n k bs
  proof -
    from bm that have "n \<in> ?R" "map_of (node_to_bucket_key s) n = Some k"
      by (auto simp: bucket_members_def)
    with bk show ?thesis by (auto simp: bucket_keys_ok_def)
  qed
  have popped: "\<exists>n b'. pop_from_bucket rt ?step (buckets s) k = Inr (n, b') \<and> n \<in> set bs
       \<and> n \<in> ?R \<and> bucket_members (?R - {n}) b' (node_to_bucket_key s)"
    if k: "map_of (buckets s) k = Some bs" for k bs
  proof -
    from bm k have ne: "bs \<noteq> []" and d: "distinct bs" and sub: "set bs \<subseteq> ?R"
      by (auto simp: bucket_members_def)
    from pop_from_bucket_ok [OF k ne d, of rt ?step] obtain n b' where
      p: "pop_from_bucket rt ?step (buckets s) k = Inr (n, b')" "n \<in> set bs"
      "map_of b' = (map_of (buckets s))(k := if removeAll n bs = [] then None else Some (removeAll n bs))"
      by blast
    from bucket_members_pop [OF bm k p(2,3)] p(1,2) sub show ?thesis by blast
  qed
  show ?thesis
  proof (cases "bucket_truthy (buckets s) Sinks")
    case True
    then obtain bs where k: "map_of (buckets s) Sinks = Some bs" by (auto simp: bucket_truthy_iff)
    from popped [OF k] obtain n b' where
      p: "pop_from_bucket rt ?step (buckets s) Sinks = Inr (n, b')" "n \<in> set bs" "n \<in> ?R"
      "bucket_members (?R - {n}) b' (node_to_bucket_key s)" by blast
    let ?s1 = "s\<lparr>buckets := b', right_list := right_list s @ [n]\<rparr>"
    from loop_inv_after_removal [OF inv p(3), of ?s1] p(4) obtain s' where
      r: "update_removed_node rt ?s1 n = Inr s'" "loop_inv N s'"
      "input_dict s' = remove_node n (input_dict s)"
      "output_dict s' = remove_node n (output_dict s)"
      "left_list s' = left_list ?s1" "right_list s' = right_list ?s1"
      "feedback_val s' = feedback_val ?s1" by auto
    from key [OF k p(2)] have "map_of (output_dict s) n = None \<or> map_of (output_dict s) n = Some []"
      by (simp add: key_Sinks)
    moreover from p(3) ks have "\<exists>d. map_of (output_dict s) n = Some d"
      by (intro in_keys_map_of) simp
    ultimately have e: "map_of (output_dict s) n = Some []" by auto
    have "loop_body rt s = Inr s'"
      using True p(1) r(1) by (simp add: loop_body_def Let_def)
    with r p(3) e True show ?thesis by (intro exI [of _ s'] exI [of _ n]) simp
  next
    case F1: False
    show ?thesis
    proof (cases "bucket_truthy (buckets s) Sources")
      case True
      then obtain bs where k: "map_of (buckets s) Sources = Some bs" by (auto simp: bucket_truthy_iff)
      from popped [OF k] obtain n b' where
        p: "pop_from_bucket rt ?step (buckets s) Sources = Inr (n, b')" "n \<in> set bs" "n \<in> ?R"
        "bucket_members (?R - {n}) b' (node_to_bucket_key s)" by blast
      let ?s1 = "s\<lparr>buckets := b', left_list := left_list s @ [n]\<rparr>"
      from loop_inv_after_removal [OF inv p(3), of ?s1] p(4) obtain s' where
        r: "update_removed_node rt ?s1 n = Inr s'" "loop_inv N s'"
        "input_dict s' = remove_node n (input_dict s)"
        "output_dict s' = remove_node n (output_dict s)"
        "left_list s' = left_list ?s1" "right_list s' = right_list ?s1"
        "feedback_val s' = feedback_val ?s1" by auto
      from key [OF k p(2)] have "map_of (input_dict s) n = None \<or> map_of (input_dict s) n = Some []"
        by (rule key_Sources)
      moreover from p(3) have "\<exists>d. map_of (input_dict s) n = Some d"
        by (rule in_keys_map_of)
      ultimately have e: "map_of (input_dict s) n = Some []" by auto
      have "loop_body rt s = Inr s'"
        using F1 True p(1) r(1) by (simp add: loop_body_def Let_def)
      with r p(3) e F1 True show ?thesis by (intro exI [of _ s'] exI [of _ n]) simp
    next
      case F2: False
      from loop_inv_card [OF inv] lt have "card ?R > 0" by simp
      then obtain m where m: "m \<in> ?R" by (metis card_gt_0_iff ex_in_conv)
      with bm obtain k0 bs0 where k0: "map_of (buckets s) k0 = Some bs0" "m \<in> set bs0"
        unfolding bucket_members_def by blast
      then have ne0: "bs0 \<noteq> []" by auto
      with k0 F1 F2 have "k0 \<noteq> Sinks" "k0 \<noteq> Sources" by (auto simp: bucket_truthy_iff)
      then obtain d0 where "k0 = Delta d0" by (cases k0) auto
      with k0 have "d0 \<in> set (delta_keys (buckets s))"
        by (auto simp: set_delta_keys dest!: map_of_SomeD intro: rev_image_eqI)
      then have dne: "delta_keys (buckets s) \<noteq> []" by auto
      let ?md = "Max (set (delta_keys (buckets s)))"
      have "?md \<in> set (delta_keys (buckets s))" using dne by (intro Max_in) auto
      then have "Delta ?md \<in> fst ` set (buckets s)" by (simp add: set_delta_keys)
      then obtain bs where k: "map_of (buckets s) (Delta ?md) = Some bs"
        by (metis domD dom_map_of_conv_image_fst)
      from popped [OF k] obtain n b' where
        p: "pop_from_bucket rt ?step (buckets s) (Delta ?md) = Inr (n, b')" "n \<in> set bs" "n \<in> ?R"
        "bucket_members (?R - {n}) b' (node_to_bucket_key s)" by blast
      from in_keys_map_of [OF p(3)] obtain in_n where in_n: "map_of (input_dict s) n = Some in_n"
        by blast
      let ?s1 = "s\<lparr>buckets := b', left_list := left_list s @ [n],
                   feedback_val := feedback_val s + sum_list (values_of in_n)\<rparr>"
      from loop_inv_after_removal [OF inv p(3), of ?s1] p(4) obtain s' where
        r: "update_removed_node rt ?s1 n = Inr s'" "loop_inv N s'"
        "input_dict s' = remove_node n (input_dict s)"
        "output_dict s' = remove_node n (output_dict s)"
        "left_list s' = left_list ?s1" "right_list s' = right_list ?s1"
        "feedback_val s' = feedback_val ?s1" by auto
      have "loop_body rt s = Inr s'"
        using F1 F2 dne p(1) r(1) in_n
        by (simp add: loop_body_def Let_def max_delta_key_def getitem_Some del: getitem_eq_Inr)
      with r p(3) in_n F1 F2 show ?thesis by (intro exI [of _ s'] exI [of _ n]) simp
    qed
  qed
qed

subsection \<open>Backward weight and the result of the main loop\<close>

definition wt :: "('n \<Rightarrow> 'n \<Rightarrow> int option) \<Rightarrow> 'n \<Rightarrow> 'n \<Rightarrow> int" where
  "wt E a b = (case E a b of None \<Rightarrow> 0 | Some w \<Rightarrow> w)"

fun backward_weight :: "('n \<Rightarrow> 'n \<Rightarrow> int) \<Rightarrow> 'n list \<Rightarrow> int" where
  "backward_weight W [] = 0"
| "backward_weight W (n # xs) = (\<Sum>m\<leftarrow>xs. W m n) + backward_weight W xs"

lemma backward_weight_snoc:
  "backward_weight W (xs @ [n]) = backward_weight W xs + (\<Sum>m\<leftarrow>xs. W n m)"
  by (induction xs) (auto simp: algebra_simps)

lemma backward_weight_cong:
  "(\<And>a b. a \<in> set xs \<Longrightarrow> b \<in> set xs \<Longrightarrow> W a b = W' a b) \<Longrightarrow>
   backward_weight W xs = backward_weight W' xs"
proof (induction xs)
  case Nil
  then show ?case by simp
next
  case (Cons n xs)
  have "(\<Sum>m\<leftarrow>xs. W m n) = (\<Sum>m\<leftarrow>xs. W' m n)"
    by (rule arg_cong [where f = sum_list], rule map_cong [OF refl]) (simp add: Cons.prems)
  moreover have "backward_weight W xs = backward_weight W' xs"
    by (rule Cons.IH) (simp add: Cons.prems)
  ultimately show ?case by simp
qed

lemma sum_list_zero: "(\<And>x. x \<in> set xs \<Longrightarrow> f x = 0) \<Longrightarrow> (\<Sum>x\<leftarrow>xs. f x) = (0::int)"
  by (induction xs) auto

lemma sum_values:
  fixes d :: "('k, int) dict"
  assumes d: "distinct (keys d)" and x: "distinct xs" and sub: "set (keys d) \<subseteq> set xs"
  shows "(\<Sum>m\<leftarrow>xs. case map_of d m of None \<Rightarrow> 0 | Some w \<Rightarrow> w) = sum_list (values_of d)"
proof -
  let ?f = "\<lambda>m. case map_of d m of None \<Rightarrow> (0::int) | Some w \<Rightarrow> w"
  have "(\<Sum>m\<leftarrow>xs. ?f m) = sum ?f (set xs)" using x by (rule sum_list_distinct_conv_sum_set)
  also have "\<dots> = sum ?f (set (keys d))"
  proof (rule sum.mono_neutral_right)
    show "\<forall>i\<in>set xs - set (keys d). ?f i = 0"
      by (auto simp: keys_def map_of_eq_None_iff [symmetric] split: option.splits)
  qed (use sub in auto)
  also have "\<dots> = (\<Sum>m\<leftarrow>keys d. ?f m)" using d by (rule sum_list_distinct_conv_sum_set [symmetric])
  also have "map ?f (keys d) = values_of d"
    unfolding keys_def values_of_def map_map
  proof (rule map_cong [OF refl])
    fix p assume "p \<in> set d"
    then have "map_of d (fst p) = Some (snd p)" using d by (simp add: keys_def)
    then show "(?f \<circ> fst) p = snd p" by simp
  qed
  finally show ?thesis .
qed

lemma wt_remove_node:
  "a \<noteq> n \<Longrightarrow> b \<noteq> n \<Longrightarrow> wt (entry (remove_node n D)) a b = wt (entry D) a b"
  by (simp add: wt_def entry_remove_node)

lemma main_loop_ok:
  assumes "loop_inv N s"
  shows "\<exists>f X Y. main_loop rt N s = Inr f \<and> loop_inv N f
     \<and> left_list f = left_list s @ X \<and> right_list f = right_list s @ Y
     \<and> distinct (X @ Y) \<and> set (X @ Y) = set (keys (input_dict s))
     \<and> set (keys (input_dict f)) = {}
     \<and> feedback_val f =
         feedback_val s + backward_weight (wt (entry (output_dict s))) (X @ rev Y)"
  using assms
proof (induction "N - (length (left_list s) + length (right_list s))" arbitrary: s)
  case 0
  let ?R = "set (keys (input_dict s))"
  from loop_inv_card [OF 0(2)] 0(1) have "card ?R = 0" by arith
  then have R: "?R = {}" by simp
  from loop_inv_card [OF 0(2)] R have "\<not> length (left_list s) + length (right_list s) < N" by simp
  then have "main_loop rt N s = Inr s" by (subst main_loop.simps) simp
  with 0(2) R show ?case by (intro exI [of _ s] exI [of _ "[]"]) simp
next
  case (Suc k)
  let ?R = "set (keys (input_dict s))"
  let ?W = "wt (entry (output_dict s))"
  from Suc(2) have lt: "length (left_list s) + length (right_list s) < N" by simp
  from Suc(3) have g: "graph_ok (input_dict s) (output_dict s)" by (simp add: loop_inv_def)
  then have wfi: "wf_graph (input_dict s)" and sym: "\<And>a b. entry (output_dict s) a b = entry (input_dict s) b a"
    unfolding graph_ok_def by blast+
  from loop_body_ok [OF Suc(3) lt, of rt] obtain s' n where
    b: "loop_body rt s = Inr s'" and inv': "loop_inv N s'" and n: "n \<in> ?R"
    and i': "input_dict s' = remove_node n (input_dict s)"
    and o': "output_dict s' = remove_node n (output_dict s)"
    and c: "if bucket_truthy (buckets s) Sinks then
           map_of (output_dict s) n = Some [] \<and> left_list s' = left_list s
           \<and> right_list s' = right_list s @ [n] \<and> feedback_val s' = feedback_val s
         else if bucket_truthy (buckets s) Sources then
           map_of (input_dict s) n = Some [] \<and> left_list s' = left_list s @ [n]
           \<and> right_list s' = right_list s \<and> feedback_val s' = feedback_val s
         else
           left_list s' = left_list s @ [n] \<and> right_list s' = right_list s
           \<and> feedback_val s' =
               feedback_val s + sum_list (values_of (the (map_of (input_dict s) n)))"
    by blast
  from loop_body_placed [OF b] Suc(2)
  have "k = N - (length (left_list s') + length (right_list s'))" by simp
  from Suc(1) [OF this inv'] obtain f X Y where
    m: "main_loop rt N s' = Inr f" and invf: "loop_inv N f"
    and l: "left_list f = left_list s' @ X" and r: "right_list f = right_list s' @ Y"
    and d: "distinct (X @ Y)" and st: "set (X @ Y) = set (keys (input_dict s'))"
    and e: "set (keys (input_dict f)) = {}"
    and fb: "feedback_val f =
         feedback_val s' + backward_weight (wt (entry (output_dict s'))) (X @ rev Y)"
    by blast
  have run: "main_loop rt N s = Inr f"
    by (subst main_loop.simps) (simp add: lt b m)
  have st': "set (X @ Y) = ?R - {n}" using st by (simp add: i' keys_remove_node)
  then have nX: "n \<notin> set (X @ rev Y)" by auto
  have dr: "distinct (X @ rev Y)" using d by auto
  have sr: "set (X @ rev Y) = ?R - {n}" using st' by auto
  have bw': "backward_weight (wt (entry (output_dict s'))) (X @ rev Y) =
      backward_weight ?W (X @ rev Y)"
    unfolding o'
  proof (rule backward_weight_cong)
    fix a b assume "a \<in> set (X @ rev Y)" "b \<in> set (X @ rev Y)"
    with nX have "a \<noteq> n" "b \<noteq> n" by blast+
    then show "wt (entry (remove_node n (output_dict s))) a b = wt (entry (output_dict s)) a b"
      by (rule wt_remove_node)
  qed
  from in_keys_map_of [OF n] obtain in_n where in_n: "map_of (input_dict s) n = Some in_n" by blast
  have win: "?W m n = (case map_of in_n m of None \<Rightarrow> 0 | Some w \<Rightarrow> w)" for m
    unfolding wt_def sym by (simp add: entry_def in_n)
  show ?case
  proof (cases "bucket_truthy (buckets s) Sinks")
    case True
    with c have c: "map_of (output_dict s) n = Some []" "left_list s' = left_list s"
      "right_list s' = right_list s @ [n]" "feedback_val s' = feedback_val s" by auto
    have "?W n m = 0" for m by (simp add: wt_def entry_def c(1))
    then have "backward_weight ?W ((X @ rev Y) @ [n]) = backward_weight ?W (X @ rev Y)"
      by (simp add: backward_weight_snoc del: append_assoc)
    then have "feedback_val f = feedback_val s + backward_weight ?W (X @ rev (n # Y))"
      using fb bw' c(4) by simp
    moreover have "distinct (X @ n # Y)" "set (X @ n # Y) = ?R" using d st' n by auto
    ultimately show ?thesis using run invf l r e c(2,3)
      by (intro exI [of _ f] exI [of _ X] exI [of _ "n # Y"]) simp
  next
    case F1: False
    have dn: "distinct (n # X @ Y)" "set (n # X @ Y) = ?R" using d st' n by auto
    show ?thesis
    proof (cases "bucket_truthy (buckets s) Sources")
      case True
      with c F1 have c: "map_of (input_dict s) n = Some []" "left_list s' = left_list s @ [n]"
        "right_list s' = right_list s" "feedback_val s' = feedback_val s" by auto
      have "?W m n = 0" for m using c(1) in_n by (simp add: win)
      then have "backward_weight ?W (n # X @ rev Y) = backward_weight ?W (X @ rev Y)"
        by simp
      then have "feedback_val f = feedback_val s + backward_weight ?W ((n # X) @ rev Y)"
        using fb bw' c(4) by simp
      then show ?thesis using run invf l r e c(2,3) dn
        by (intro exI [of _ f] exI [of _ "n # X"] exI [of _ Y]) simp
    next
      case False
      with c F1 have c: "left_list s' = left_list s @ [n]" "right_list s' = right_list s"
        "feedback_val s' = feedback_val s + sum_list (values_of in_n)" by (auto simp: in_n)
      have din: "distinct (keys in_n)" using wfi in_n by (rule wf_graph_inner)
      have sub: "set (keys in_n) \<subseteq> set (X @ rev Y)"
      proof
        fix a assume "a \<in> set (keys in_n)"
        then have a: "entry (input_dict s) n a \<noteq> None"
          using in_n by (simp add: keys_of_map_of [OF din] entry_def)
        then have "entry (output_dict s) a n \<noteq> None" by (simp add: sym)
        then have "a \<in> set (keys (output_dict s))" by (auto dest: entry_keys)
        moreover have "a \<noteq> n"
        proof
          assume "a = n"
          with a have "entry (output_dict s) n n \<noteq> None" by (simp add: sym)
          with g show False unfolding graph_ok_def by (metis option.distinct(1) not_None_eq)
        qed
        moreover from g have "set (keys (input_dict s)) = set (keys (output_dict s))"
          unfolding graph_ok_def by blast
        ultimately show "a \<in> set (X @ rev Y)" unfolding sr by simp
      qed
      have "(\<Sum>m\<leftarrow>X @ rev Y. ?W m n) = sum_list (values_of in_n)"
        unfolding win using din dr sub by (rule sum_values)
      then have "feedback_val f = feedback_val s + backward_weight ?W ((n # X) @ rev Y)"
        using fb bw' c(3) by simp
      then show ?thesis using run invf l r e c(1,2) dn
        by (intro exI [of _ f] exI [of _ "n # X"] exI [of _ Y]) simp
    qed
  qed
qed

subsection \<open>The initial state\<close>

lemma bucket_members_cong:
  "bucket_members S b n2k \<Longrightarrow> (\<And>m. m \<in> S \<Longrightarrow> map_of n2k' m = map_of n2k m) \<Longrightarrow>
   bucket_members S b n2k'"
  unfolding bucket_members_def by simp

lemma distinct_keys_insert_to_bucket:
  "distinct (keys b) \<Longrightarrow> distinct (keys (insert_to_bucket b m k))"
  by (auto simp: insert_to_bucket_def distinct_setitem split: option.splits)

lemma initial_buckets_inv:
  "distinct (keys (initial_buckets idd od i)) \<and>
   bucket_members {0..<i} (initial_buckets idd od i)
     (fold (\<lambda>n d. setitem d n (compute_bucket_key_for_node idd od n)) [0..<i] []) \<and>
   (\<forall>m<i. map_of (fold (\<lambda>n d. setitem d n (compute_bucket_key_for_node idd od n)) [0..<i] []) m =
      Some (compute_bucket_key_for_node idd od m))"
proof (induction i)
  case 0
  then show ?case by (simp add: initial_buckets_def bucket_members_def keys_def)
next
  case (Suc i)
  let ?key = "compute_bucket_key_for_node idd od"
  let ?n2k = "fold (\<lambda>n d. setitem d n (?key n)) [0..<i] []"
  have b: "initial_buckets idd od (Suc i) = insert_to_bucket (initial_buckets idd od i) i (?key i)"
    by (simp add: initial_buckets_def)
  have n: "fold (\<lambda>n d. setitem d n (?key n)) [0..<Suc i] [] = setitem ?n2k i (?key i)"
    by simp
  have s: "{0..<Suc i} = insert i {0..<i}" by auto
  from Suc have 1: "distinct (keys (initial_buckets idd od i))"
    and 2: "bucket_members {0..<i} (initial_buckets idd od i) ?n2k"
    and 3: "\<forall>m<i. map_of ?n2k m = Some (?key m)" by auto
  have "bucket_members (insert i {0..<i}) (insert_to_bucket (initial_buckets idd od i) i (?key i))
      (setitem ?n2k i (?key i))"
    using 2 by (rule bucket_members_insert) simp
  moreover have "\<forall>m<Suc i. map_of (setitem ?n2k i (?key i)) m = Some (?key m)"
    using 3 by (auto simp: less_Suc_eq)
  ultimately show ?case unfolding b n s using 1 by (simp add: distinct_keys_insert_to_bucket)
qed

lemma fold_setitem_const:
  "map_of (fold (\<lambda>n d. setitem d n k) v d0) x = (if x \<in> set v then Some k else map_of d0 x)"
  by (induction v arbitrary: d0) auto

lemma bucket_index_other:
  "\<forall>(k, bs)\<in>set L. m \<notin> set bs \<Longrightarrow>
   map_of (fold (\<lambda>(k, v) d. fold (\<lambda>n d. setitem d n k) (iter_ids rt 0 v) d) L d0) m = map_of d0 m"
  by (induction L arbitrary: d0) (auto simp: fold_setitem_const)

lemma bucket_index_lookup:
  assumes "\<forall>(k, bs)\<in>set L. m \<in> set bs \<longrightarrow> k = k0" "\<exists>(k, bs)\<in>set L. m \<in> set bs"
  shows "map_of (fold (\<lambda>(k, v) d. fold (\<lambda>n d. setitem d n k) (iter_ids rt 0 v) d) L d0) m = Some k0"
  using assms
proof (induction L arbitrary: d0)
  case Nil
  then show ?case by simp
next
  case (Cons p L)
  obtain k v where p: "p = (k, v)" by (cases p)
  let ?d1 = "fold (\<lambda>n d. setitem d n k) (iter_ids rt 0 v) d0"
  show ?case
  proof (cases "\<exists>(k, bs)\<in>set L. m \<in> set bs")
    case True
    with Cons.prems(1) have "map_of (fold (\<lambda>(k, v) d. fold (\<lambda>n d. setitem d n k) (iter_ids rt 0 v) d) L ?d1) m = Some k0"
      by (intro Cons.IH) auto
    then show ?thesis by (simp add: p)
  next
    case False
    with Cons.prems(2) have mv: "m \<in> set v" by (auto simp: p)
    with Cons.prems(1) have "k = k0" by (simp add: p)
    from False have "\<forall>(k, bs)\<in>set L. m \<notin> set bs" by auto
    from bucket_index_other [OF this]
    have "map_of (fold (\<lambda>(k, v) d. fold (\<lambda>n d. setitem d n k) (iter_ids rt 0 v) d) L ?d1) m =
        map_of ?d1 m" .
    then show ?thesis using mv \<open>k = k0\<close> by (simp add: p fold_setitem_const)
  qed
qed

lemma initial_buckets_ok:
  "bucket_members {0..<N} (initial_buckets idd od N) (bucket_index rt (initial_buckets idd od N)) \<and>
   bucket_keys_ok {0..<N} idd od (bucket_index rt (initial_buckets idd od N))"
proof -
  let ?b = "initial_buckets idd od N"
  let ?key = "compute_bucket_key_for_node idd od"
  let ?n2k = "fold (\<lambda>n d. setitem d n (?key n)) [0..<N] []"
  from initial_buckets_inv [of idd od N] have d: "distinct (keys ?b)"
    and bm: "bucket_members {0..<N} ?b ?n2k" and k: "\<forall>m<N. map_of ?n2k m = Some (?key m)" by auto
  have idx: "map_of (bucket_index rt ?b) m = Some (?key m)" if m: "m < N" for m
    unfolding bucket_index_def
  proof (rule bucket_index_lookup)
    show "\<forall>(k, bs)\<in>set ?b. m \<in> set bs \<longrightarrow> k = ?key m"
    proof clarify
      fix k' bs assume e: "(k', bs) \<in> set ?b" "m \<in> set bs"
      from e(1) d have "map_of ?b k' = Some bs" by (simp add: keys_def)
      with bm e(2) have "map_of ?n2k m = Some k'" by (auto simp: bucket_members_def)
      with k m show "k' = ?key m" by simp
    qed
  next
    from m have "m \<in> {0..<N}" by simp
    with bm obtain k' bs where "map_of ?b k' = Some bs" "m \<in> set bs"
      unfolding bucket_members_def by blast
    then show "\<exists>(k, bs)\<in>set ?b. m \<in> set bs" by (auto dest: map_of_SomeD)
  qed
  have "bucket_members {0..<N} ?b (bucket_index rt ?b)"
    using bm by (rule bucket_members_cong) (simp add: idx k)
  moreover have "bucket_keys_ok {0..<N} idd od (bucket_index rt ?b)"
    by (simp add: bucket_keys_ok_def idx)
  ultimately show ?thesis ..
qed

lemma cweight_bounds: "cweight node_ids ct a b = Some w \<Longrightarrow> a < length node_ids \<and> b < length node_ids"
  by (auto simp: cweight_def split: if_splits)

lemma cweight_diag:
  assumes "distinct node_ids" "set node_ids = nodes_from_connections_table ct"
  shows "(\<exists>a. cweight node_ids ct a a \<noteq> None) \<longleftrightarrow> (\<exists>r\<in>set ct. r0 r = r1 r)"
proof
  assume "\<exists>a. cweight node_ids ct a a \<noteq> None"
  then obtain a r where "r \<in> set ct" "r0 r = node_ids ! a" "r1 r = node_ids ! a"
    by (auto simp: cweight_def edge_weight_def split: if_splits)
  then have "r \<in> set ct" "r0 r = r1 r" by simp_all
  then show "\<exists>r\<in>set ct. r0 r = r1 r" ..
next
  assume "\<exists>r\<in>set ct. r0 r = r1 r"
  then obtain r where r: "r \<in> set ct" "r0 r = r1 r" by blast
  then have "r0 r \<in> set node_ids" by (auto simp: assms(2) nodes_from_connections_table_def)
  then obtain a where a: "a < length node_ids" "node_ids ! a = r0 r" by (auto simp: in_set_conv_nth)
  with r have "cweight node_ids ct a a \<noteq> None" by (auto simp: cweight_def edge_weight_def)
  then show "\<exists>a. cweight node_ids ct a a \<noteq> None" ..
qed

definition initial_feedback :: "(nat \<Rightarrow> nat \<Rightarrow> int option) \<Rightarrow> int" where
  "initial_feedback E = (\<Sum>(n1, n2)\<in>anti_parallel_pairs E. min (the (E n1 n2)) (the (E n2 n1)))"

lemma resolution_ok:
  fixes ct :: "'a row list"
  assumes ok: "set_iter_ok rt"
  shows "\<exists>conns' node_ids idd0 od0 idd od.
      compact_graph rt g ct seed = Inr (conns', zip node_ids [0..<length node_ids], idd0, od0)
    \<and> remove_anti_parallel idd0 od0 = Inr (idd, od, initial_feedback (cweight node_ids ct))
    \<and> mset conns' = mset ct \<and> distinct node_ids
    \<and> set node_ids = nodes_from_connections_table ct
    \<and> wf_graph idd \<and> wf_graph od
    \<and> set (keys idd) = {0..<length node_ids} \<and> set (keys od) = {0..<length node_ids}
    \<and> (\<forall>a b. entry od0 a b = cweight node_ids ct a b)
    \<and> (\<forall>a b. entry idd0 b a = cweight node_ids ct a b)
    \<and> (\<forall>a b. entry od a b =
          resolved (cweight node_ids ct) (anti_parallel_pairs (cweight node_ids ct)) a b)
    \<and> (\<forall>a b. entry idd b a =
          resolved (cweight node_ids ct) (anti_parallel_pairs (cweight node_ids ct)) a b)"
proof -
  from compact_graph_ok [OF ok, of g ct seed] obtain conns' node_ids idd0 od0 where
    c: "compact_graph rt g ct seed = Inr (conns', zip node_ids [0..<length node_ids], idd0, od0)"
    and ms: "mset conns' = mset ct" and dn: "distinct node_ids"
    and sn: "set node_ids = nodes_from_connections_table ct"
    and wfi: "wf_graph idd0" and wfo: "wf_graph od0"
    and ki: "set (keys idd0) = {0..<length node_ids}" and ko: "set (keys od0) = {0..<length node_ids}"
    and eo: "\<And>a b. entry od0 a b = cweight node_ids ct a b"
    and ei: "\<And>a b. entry idd0 b a = cweight node_ids ct a b"
    by blast
  let ?E = "cweight node_ids ct"
  have Eeq: "entry od0 = ?E" by (intro ext) (rule eo)
  have sym: "entry od0 a b = entry idd0 b a" for a b by (simp add: eo ei)
  have closed: "b \<in> set (keys idd0)" if "entry idd0 a b = Some w" for a b w
    using that cweight_bounds [of node_ids ct b a w] by (simp add: ei ki)
  have "\<exists>st. remove_anti_parallel idd0 od0 = Inr st \<and>
     resolve_inv idd0 od0 (anti_parallel_pairs (entry od0)) (anti_parallel_pairs (entry od0)) st"
    by (rule remove_anti_parallel_ok [OF wfi wfo sym]) (rule closed)
  then obtain st where
    r: "remove_anti_parallel idd0 od0 = Inr st"
    and inv: "resolve_inv idd0 od0 (anti_parallel_pairs ?E) (anti_parallel_pairs ?E) st"
    unfolding Eeq by blast
  obtain idd od fb where st: "st = (idd, od, fb)" by (cases st)
  from inv have "wf_graph idd" "wf_graph od" "set (keys idd) = set (keys idd0)"
    "set (keys od) = set (keys od0)"
    "\<forall>a b. entry od a b = resolved ?E (anti_parallel_pairs ?E) a b"
    "\<forall>a b. entry idd b a = resolved ?E (anti_parallel_pairs ?E) a b"
    "fb = initial_feedback ?E"
    unfolding resolve_inv_def st Eeq initial_feedback_def by auto
  with c r ms dn sn ki ko eo ei show ?thesis unfolding st by blast
qed

definition resolved_weight :: "'a list \<Rightarrow> 'a row list \<Rightarrow> nat \<Rightarrow> nat \<Rightarrow> int option" where
  "resolved_weight node_ids ct =
     resolved (cweight node_ids ct) (anti_parallel_pairs (cweight node_ids ct))"

lemma post_checks:
  fixes idd od :: graph
  assumes wfi: "wf_graph idd" and wfo: "wf_graph od"
    and ki: "set (keys idd) = {0..<length node_ids}" and ko: "set (keys od) = {0..<length node_ids}"
    and eo: "\<And>a b. entry od a b = resolved_weight node_ids ct a b"
    and ei: "\<And>a b. entry idd b a = resolved_weight node_ids ct a b"
    and dn: "distinct node_ids" and sn: "set node_ids = nodes_from_connections_table ct"
  shows "check_mirror_strict 114 115 idd od =
           (if \<exists>r\<in>set ct. r0 r = r1 r then Inl (AssertionError 115) else Inr ())"
    and "check_mirror_strict 118 119 od idd =
           (if \<exists>r\<in>set ct. r0 r = r1 r then Inl (AssertionError 119) else Inr ())"
    and "\<not> (\<exists>r\<in>set ct. r0 r = r1 r) \<Longrightarrow> graph_ok idd od"
proof -
  let ?E = "cweight node_ids ct"
  let ?E1 = "resolved_weight node_ids ct"
  have bnd: "a < length node_ids \<and> b < length node_ids" if "?E1 a b = Some w" for a b w
  proof -
    from that have "?E a b \<noteq> None" unfolding resolved_weight_def by (rule resolved_Some_orig)
    then show ?thesis using cweight_bounds [of node_ids ct a b] by auto
  qed
  have both: "(\<exists>a b. ?E1 a b \<noteq> None \<and> ?E1 b a \<noteq> None) \<longleftrightarrow> (\<exists>r\<in>set ct. r0 r = r1 r)"
  proof
    assume "\<exists>a b. ?E1 a b \<noteq> None \<and> ?E1 b a \<noteq> None"
    then obtain a b where ab: "?E1 a b \<noteq> None" "?E1 b a \<noteq> None" by blast
    have "a = b"
    proof (rule ccontr)
      assume "a \<noteq> b"
      with ab(1) have "?E1 b a = None"
        unfolding resolved_weight_def by (auto dest: resolved_no_anti_parallel)
      with ab(2) show False by simp
    qed
    with ab have "?E a a \<noteq> None" by (simp add: resolved_weight_def resolved_diag)
    then show "\<exists>r\<in>set ct. r0 r = r1 r" using cweight_diag [OF dn sn] by blast
  next
    assume "\<exists>r\<in>set ct. r0 r = r1 r"
    then obtain a where "?E a a \<noteq> None" using cweight_diag [OF dn sn] by blast
    then have "?E1 a a \<noteq> None" by (simp add: resolved_weight_def resolved_diag)
    then show "\<exists>a b. ?E1 a b \<noteq> None \<and> ?E1 b a \<noteq> None" by blast
  qed
  have m1: "entry od b a = Some w \<and> b \<in> set (keys idd)" if "entry idd a b = Some w" for a b w
    using that bnd [of b a w] by (simp add: ei eo ki)
  have m2: "entry idd b a = Some w \<and> b \<in> set (keys od)" if "entry od a b = Some w" for a b w
    using that bnd [of a b w] by (simp add: ei eo ko)
  have "(\<exists>a b. entry idd a b \<noteq> None \<and> entry idd b a \<noteq> None) \<longleftrightarrow> (\<exists>r\<in>set ct. r0 r = r1 r)"
    unfolding ei both [symmetric] by blast
  then show "check_mirror_strict 114 115 idd od =
           (if \<exists>r\<in>set ct. r0 r = r1 r then Inl (AssertionError 115) else Inr ())"
    using check_mirror_strict_eq [OF wfi m1, of 114 115] by simp
  have "(\<exists>a b. entry od a b \<noteq> None \<and> entry od b a \<noteq> None) \<longleftrightarrow> (\<exists>r\<in>set ct. r0 r = r1 r)"
    unfolding eo both [symmetric] by blast
  then show "check_mirror_strict 118 119 od idd =
           (if \<exists>r\<in>set ct. r0 r = r1 r then Inl (AssertionError 119) else Inr ())"
    using check_mirror_strict_eq [OF wfo m2, of 118 119] by simp
  show "graph_ok idd od" if nsl: "\<not> (\<exists>r\<in>set ct. r0 r = r1 r)"
    unfolding graph_ok_def
  proof (intro conjI allI impI)
    show "wf_graph idd" "wf_graph od" by (rule wfi, rule wfo)
    show "set (keys idd) = set (keys od)" by (simp add: ki ko)
    show "entry od a b = entry idd b a" for a b by (simp add: ei eo)
    show "b \<in> set (keys od)" if "entry od a b = Some w" for a b w
      using m2 [OF that] by simp
    show "entry od b a = None" if "entry od a b = Some w" for a b w
    proof (rule ccontr)
      assume "entry od b a \<noteq> None"
      with that have "?E1 a b \<noteq> None \<and> ?E1 b a \<noteq> None" unfolding eo by simp
      then have "\<exists>a b. ?E1 a b \<noteq> None \<and> ?E1 b a \<noteq> None" by blast
      then have "\<exists>r\<in>set ct. r0 r = r1 r" by (simp only: both)
      with nsl show False by blast
    qed
  qed
qed

lemma initial_state_self_loop:
  fixes ct :: "'a row list"
  assumes ok: "set_iter_ok rt" and sl: "\<exists>r\<in>set ct. r0 r = r1 r"
  shows "initial_state rt g ct seed = Inl (AssertionError 115)"
proof -
  from resolution_ok [OF ok, of g ct seed] obtain conns' node_ids idd0 od0 idd od where
    c: "compact_graph rt g ct seed = Inr (conns', zip node_ids [0..<length node_ids], idd0, od0)"
    and r: "remove_anti_parallel idd0 od0 = Inr (idd, od, initial_feedback (cweight node_ids ct))"
    and dn: "distinct node_ids" and sn: "set node_ids = nodes_from_connections_table ct"
    and wfi: "wf_graph idd" and wfo: "wf_graph od"
    and ki: "set (keys idd) = {0..<length node_ids}" and ko: "set (keys od) = {0..<length node_ids}"
    and eo: "\<And>a b. entry od a b = resolved_weight node_ids ct a b"
    and ei: "\<And>a b. entry idd b a = resolved_weight node_ids ct a b"
    unfolding resolved_weight_def by blast
  from post_checks(1) [OF wfi wfo ki ko eo ei dn sn] sl
  have "check_mirror_strict 114 115 idd od = Inl (AssertionError 115)" by simp
  then show ?thesis by (simp add: initial_state_def resolve_graph_def c r)
qed

lemma initial_state_ok:
  fixes ct :: "'a row list"
  assumes ok: "set_iter_ok rt" and nsl: "\<not> (\<exists>r\<in>set ct. r0 r = r1 r)"
  shows "\<exists>conns' node_ids s0.
      initial_state rt g ct seed = Inr (conns', zip node_ids [0..<length node_ids], s0)
    \<and> mset conns' = mset ct \<and> distinct node_ids
    \<and> set node_ids = nodes_from_connections_table ct
    \<and> loop_inv (length node_ids) s0
    \<and> set (keys (input_dict s0)) = {0..<length node_ids}
    \<and> left_list s0 = [] \<and> right_list s0 = []
    \<and> (\<forall>a b. entry (output_dict s0) a b = resolved_weight node_ids ct a b)
    \<and> feedback_val s0 = initial_feedback (cweight node_ids ct)"
proof -
  from resolution_ok [OF ok, of g ct seed] obtain conns' node_ids idd0 od0 idd od where
    c: "compact_graph rt g ct seed = Inr (conns', zip node_ids [0..<length node_ids], idd0, od0)"
    and r: "remove_anti_parallel idd0 od0 = Inr (idd, od, initial_feedback (cweight node_ids ct))"
    and ms: "mset conns' = mset ct"
    and dn: "distinct node_ids" and sn: "set node_ids = nodes_from_connections_table ct"
    and wfi: "wf_graph idd" and wfo: "wf_graph od"
    and ki: "set (keys idd) = {0..<length node_ids}" and ko: "set (keys od) = {0..<length node_ids}"
    and eo: "\<And>a b. entry od a b = resolved_weight node_ids ct a b"
    and ei: "\<And>a b. entry idd b a = resolved_weight node_ids ct a b"
    unfolding resolved_weight_def by blast
  note pc = post_checks [OF wfi wfo ki ko eo ei dn sn]
  from pc(1) nsl have c1: "check_mirror_strict 114 115 idd od = Inr ()" by simp
  from pc(2) nsl have c2: "check_mirror_strict 118 119 od idd = Inr ()" by simp
  from pc(3) nsl have g: "graph_ok idd od" by simp
  let ?N = "length node_ids"
  let ?b = "initial_buckets idd od ?N"
  let ?s0 = "\<lparr>input_dict = idd, output_dict = od, buckets = ?b,
              node_to_bucket_key = bucket_index rt ?b,
              left_list = [], right_list = [], feedback_val = initial_feedback (cweight node_ids ct)\<rparr>"
  have run: "initial_state rt g ct seed = Inr (conns', zip node_ids [0..<?N], ?s0)"
    by (simp add: initial_state_def resolve_graph_def c r c1 c2 Let_def)
  have "loop_inv ?N ?s0"
    unfolding loop_inv_def using g initial_buckets_ok [of ?N idd od] by (simp add: ki)
  with run ms dn sn ki eo show ?thesis
    by (intro exI [of _ conns'] exI [of _ node_ids] exI [of _ ?s0]) simp
qed

subsection \<open>Positions in the final order and the final check\<close>

fun position :: "'n list \<Rightarrow> 'n \<Rightarrow> nat" where
  "position [] u = 0"
| "position (x # xs) u = (if x = u then 0 else Suc (position xs u))"

lemma position_less: "u \<in> set xs \<Longrightarrow> position xs u < length xs"
  by (induction xs) auto

lemma nth_position: "u \<in> set xs \<Longrightarrow> xs ! position xs u = u"
  by (induction xs) auto


lemma backward_weight_add:
  "backward_weight (\<lambda>a b. W1 a b + W2 a b) xs = backward_weight W1 xs + backward_weight W2 xs"
  by (induction xs) (auto simp: sum_list_addf)

lemma backward_weight_map:
  "backward_weight W (map h xs) = backward_weight (\<lambda>a b. W (h a) (h b)) xs"
  by (induction xs) (auto simp: comp_def)

lemma sum_list_indicator:
  "distinct xs \<Longrightarrow> (\<Sum>m\<leftarrow>xs. if m = u then w else 0) = (if u \<in> set xs then w else (0::int))"
  by (induction xs) auto

lemma backward_weight_single_zero:
  "u \<notin> set xs \<or> v \<notin> set xs \<Longrightarrow>
   backward_weight (\<lambda>a b. if a = u \<and> b = v then w else 0) xs = 0"
proof (induction xs)
  case Nil
  then show ?case by simp
next
  case (Cons n xs)
  have "(\<Sum>m\<leftarrow>xs. if m = u \<and> n = v then w else 0) = 0"
    using Cons.prems by (intro sum_list_zero) auto
  moreover have "backward_weight (\<lambda>a b. if a = u \<and> b = v then w else 0) xs = 0"
    using Cons.prems by (intro Cons.IH) auto
  ultimately show ?case by simp
qed

lemma backward_weight_single:
  "distinct xs \<Longrightarrow> u \<in> set xs \<Longrightarrow> v \<in> set xs \<Longrightarrow>
   backward_weight (\<lambda>a b. if a = u \<and> b = v then w else 0) xs =
     (if position xs v < position xs u then w else 0)"
proof (induction xs)
  case Nil
  then show ?case by simp
next
  case (Cons n xs)
  let ?W = "\<lambda>a b. if a = u \<and> b = v then w else (0::int)"
  show ?case
  proof (cases "n = v")
    case True
    have z: "backward_weight ?W xs = 0"
      using Cons.prems True by (intro backward_weight_single_zero) auto
    have "(\<Sum>m\<leftarrow>xs. ?W m n) = (\<Sum>m\<leftarrow>xs. if m = u then w else 0)"
      using True by simp
    also have "\<dots> = (if u \<in> set xs then w else 0)"
      using Cons.prems by (intro sum_list_indicator) simp
    finally show ?thesis using z True Cons.prems by auto
  next
    case False
    have s: "(\<Sum>m\<leftarrow>xs. ?W m n) = 0" using False by (intro sum_list_zero) auto
    show ?thesis
    proof (cases "n = u")
      case True
      have "backward_weight ?W xs = 0"
        using Cons.prems True by (intro backward_weight_single_zero) auto
      then show ?thesis using s True False by simp
    next
      case F: False
      with False Cons.prems have "backward_weight ?W xs =
          (if position xs v < position xs u then w else 0)"
        by (intro Cons.IH) auto
      then show ?thesis using s F False by simp
    qed
  qed
qed

lemma backward_weight_rows:
  assumes "distinct res" "\<forall>r\<in>set ct. r0 r \<in> set res \<and> r1 r \<in> set res"
  shows "backward_weight (\<lambda>u v. wsum (\<lambda>r. r0 r = u \<and> r1 r = v) ct) res =
         wsum (\<lambda>r. position res (r1 r) < position res (r0 r)) ct"
  using assms(2)
proof (induction ct)
  case Nil
  have "backward_weight (\<lambda>u v. 0) res = 0" by (induction res) auto
  then show ?case by simp
next
  case (Cons r ct)
  let ?Wr = "\<lambda>a b. if a = r0 r \<and> b = r1 r then r2 r else 0"
  let ?W = "\<lambda>u v. wsum (\<lambda>r. r0 r = u \<and> r1 r = v) ct"
  have "(\<lambda>u v. wsum (\<lambda>r. r0 r = u \<and> r1 r = v) (r # ct)) = (\<lambda>a b. ?Wr a b + ?W a b)"
    by (intro ext) simp
  then have "backward_weight (\<lambda>u v. wsum (\<lambda>r. r0 r = u \<and> r1 r = v) (r # ct)) res =
      backward_weight ?Wr res + backward_weight ?W res"
    by (simp only: backward_weight_add)
  moreover have "backward_weight ?Wr res =
      (if position res (r1 r) < position res (r0 r) then r2 r else 0)"
    using assms(1) Cons.prems by (intro backward_weight_single) auto
  moreover have "backward_weight ?W res = wsum (\<lambda>r. position res (r1 r) < position res (r0 r)) ct"
    using Cons.prems by (intro Cons.IH) auto
  ultimately show ?case by simp
qed

definition pairs_of :: "nat set \<Rightarrow> (nat \<times> nat) set" where
  "pairs_of S = {(a, b). a \<in> S \<and> b \<in> S \<and> b < a}"

lemma finite_pairs_of: "finite S \<Longrightarrow> finite (pairs_of S)"
  by (rule finite_subset [of _ "S \<times> S"]) (auto simp: pairs_of_def)

lemma backward_weight_symmetric:
  fixes M :: "nat \<Rightarrow> nat \<Rightarrow> int"
  assumes sym: "\<And>a b. M a b = M b a"
  shows "distinct xs \<Longrightarrow> backward_weight M xs = (\<Sum>(a, b)\<in>pairs_of (set xs). M a b)"
proof (induction xs)
  case Nil
  then show ?case by (simp add: pairs_of_def)
next
  case (Cons n xs)
  let ?S = "set xs"
  let ?L = "{b \<in> ?S. b < n}" and ?U = "{a \<in> ?S. n < a}"
  let ?f = "\<lambda>(a, b). M a b"
  from Cons.prems have n: "n \<notin> ?S" and d: "distinct xs" by auto
  have IH: "backward_weight M xs = sum ?f (pairs_of ?S)" using d by (rule Cons.IH)
  have split: "pairs_of (set (n # xs)) = (pairs_of ?S \<union> (\<lambda>b. (n, b)) ` ?L) \<union> (\<lambda>a. (a, n)) ` ?U"
    by (auto simp: pairs_of_def)
  have fin: "finite (pairs_of ?S)" "finite ((\<lambda>b. (n, b)) ` ?L)" "finite ((\<lambda>a. (a, n)) ` ?U)"
    by (auto intro: finite_pairs_of)
  have dj1: "pairs_of ?S \<inter> (\<lambda>b. (n, b)) ` ?L = {}" using n by (auto simp: pairs_of_def)
  have dj2: "(pairs_of ?S \<union> (\<lambda>b. (n, b)) ` ?L) \<inter> (\<lambda>a. (a, n)) ` ?U = {}"
    using n by (auto simp: pairs_of_def)
  have "sum ?f (pairs_of (set (n # xs))) =
      sum ?f (pairs_of ?S) + sum ?f ((\<lambda>b. (n, b)) ` ?L) + sum ?f ((\<lambda>a. (a, n)) ` ?U)"
    unfolding split using fin dj1 dj2 by (simp add: sum.union_disjoint)
  moreover have "sum ?f ((\<lambda>b. (n, b)) ` ?L) = sum (\<lambda>m. M m n) ?L"
    by (subst sum.reindex) (auto simp: inj_on_def sym [of n])
  moreover have "sum ?f ((\<lambda>a. (a, n)) ` ?U) = sum (\<lambda>m. M m n) ?U"
    by (subst sum.reindex) (auto simp: inj_on_def)
  moreover have "(\<Sum>m\<leftarrow>xs. M m n) = sum (\<lambda>m. M m n) ?L + sum (\<lambda>m. M m n) ?U"
  proof -
    have "(\<Sum>m\<leftarrow>xs. M m n) = sum (\<lambda>m. M m n) ?S" using d by (rule sum_list_distinct_conv_sum_set)
    also have "sum (\<lambda>m. M m n) ?S = sum (\<lambda>m. M m n) (?L \<union> ?U)"
    proof (rule arg_cong [where f = "sum (\<lambda>m. M m n)"], intro set_eqI iffI)
      fix x assume x: "x \<in> ?S"
      with n have "x \<noteq> n" by auto
      then have "x < n \<or> n < x" by arith
      with x show "x \<in> ?L \<union> ?U" by simp
    qed auto
    also have "\<dots> = sum (\<lambda>m. M m n) ?L + sum (\<lambda>m. M m n) ?U"
      by (rule sum.union_disjoint) auto
    finally show ?thesis .
  qed
  ultimately show ?case using IH by simp
qed

lemma resolved_difference:
  "wt E a b - wt (resolved E (anti_parallel_pairs E)) a b =
     (if (a, b) \<in> anti_parallel_pairs E \<or> (b, a) \<in> anti_parallel_pairs E
      then min (the (E a b)) (the (E b a)) else 0)"
proof (cases "(a, b) \<in> anti_parallel_pairs E \<or> (b, a) \<in> anti_parallel_pairs E")
  case True
  then obtain x y where xy: "E a b = Some x" "E b a = Some y"
    by (auto simp: anti_parallel_pairs_def)
  show ?thesis using True by (simp add: wt_def resolved_def xy min_def)
next
  case False
  then show ?thesis by (simp add: wt_def resolved_def)
qed

lemma backward_weight_resolved:
  assumes d: "distinct order" and s: "set order = {0..<N}"
    and bnd: "\<And>a b w. E a b = Some w \<Longrightarrow> a < N \<and> b < N"
  shows "backward_weight (wt E) order =
     initial_feedback E + backward_weight (wt (resolved E (anti_parallel_pairs E))) order"
proof -
  let ?A = "anti_parallel_pairs E"
  let ?E1 = "resolved E ?A"
  let ?M = "\<lambda>a b. if (a, b) \<in> ?A \<or> (b, a) \<in> ?A then min (the (E a b)) (the (E b a)) else 0"
  have "wt E = (\<lambda>a b. wt ?E1 a b + ?M a b)"
  proof (intro ext)
    fix a b
    show "wt E a b = wt ?E1 a b + ?M a b" using resolved_difference [of E a b] by linarith
  qed
  then have "backward_weight (wt E) order = backward_weight (\<lambda>a b. wt ?E1 a b + ?M a b) order"
    by simp
  also have "\<dots> = backward_weight (wt ?E1) order + backward_weight ?M order"
    by (rule backward_weight_add)
  also have "backward_weight ?M order = (\<Sum>(a, b)\<in>pairs_of (set order). ?M a b)"
    using d by (intro backward_weight_symmetric) (auto simp: min.commute)
  also have "\<dots> = (\<Sum>(a, b)\<in>?A. ?M a b)"
  proof (rule sum.mono_neutral_right)
    show "finite (pairs_of (set order))" by (intro finite_pairs_of) simp
    show "?A \<subseteq> pairs_of (set order)"
      using bnd by (auto simp: anti_parallel_pairs_def pairs_of_def s)
    show "\<forall>p\<in>pairs_of (set order) - ?A. (case p of (a, b) \<Rightarrow> ?M a b) = 0"
    proof clarify
      fix a b assume p: "(a, b) \<in> pairs_of (set order)" "(a, b) \<notin> ?A"
      from p(1) have "b < a" by (simp add: pairs_of_def)
      then have "(b, a) \<notin> ?A" by (auto simp: anti_parallel_pairs_def)
      with p(2) show "?M a b = 0" by simp
    qed
  qed
  also have "\<dots> = initial_feedback E"
    unfolding initial_feedback_def by (rule sum.cong) auto
  finally show ?thesis by simp
qed

lemma emap_ok: "(\<And>x. x \<in> set xs \<Longrightarrow> f x = Inr (h x)) \<Longrightarrow> emap f xs = Inr (map h xs)"
  by (induction xs) auto

lemma efilter_ok: "(\<And>x. x \<in> set xs \<Longrightarrow> f x = Inr (P x)) \<Longrightarrow> efilter f xs = Inr (filter P xs)"
  by (induction xs) auto

lemma wsum_mset: "mset xs = mset ys \<Longrightarrow> wsum P xs = wsum P ys"
proof -
  assume e: "mset xs = mset ys"
  have "wsum P zs = sum_mset (image_mset r2 (filter_mset P (mset zs)))" for zs :: "'a row list"
    unfolding wsum_def by (simp add: sum_mset_sum_list [symmetric])
  then show ?thesis using e by simp
qed

lemma map_of_zip_position:
  "distinct xs \<Longrightarrow> u \<in> set xs \<Longrightarrow> map_of (zip xs [0..<length xs]) u = Some (position xs u)"
  using map_of_zip_index [of xs u "position xs u"] position_less [of u xs] nth_position [of u xs]
  by blast

lemma swap_zip: "map (\<lambda>(k, v). (v, k)) (zip xs ys) = zip ys xs"
  by (induction xs arbitrary: ys) (auto simp: neq_Nil_conv zip_Cons1 split: list.splits)

lemma finalize_eq:
  fixes node_ids :: "'a list"
  assumes dn: "distinct node_ids"
    and d: "distinct (left_list f @ rev (right_list f))"
    and s: "set (left_list f @ rev (right_list f)) \<subseteq> {0..<length node_ids}"
    and c: "\<forall>r\<in>set conns'. r0 r \<in> set (map (\<lambda>i. node_ids ! i) (left_list f @ rev (right_list f)))
                         \<and> r1 r \<in> set (map (\<lambda>i. node_ids ! i) (left_list f @ rev (right_list f)))"
  shows "finalize conns' (zip node_ids [0..<length node_ids]) f =
     (let res = map (\<lambda>i. node_ids ! i) (left_list f @ rev (right_list f)) in
      if wsum (\<lambda>r. position res (r1 r) < position res (r0 r)) conns' = feedback_val f
      then Inr (res, feedback_val f) else Inl (AssertionError 237))"
proof -
  let ?N = "length node_ids"
  let ?inv = "zip [0..<?N] node_ids"
  define order where "order = left_list f @ rev (right_list f)"
  define res where "res = map (\<lambda>i. node_ids ! i) order"
  have inv: "dict_comp (map (\<lambda>(k, v). (v, k)) (zip node_ids [0..<?N])) = ?inv"
    unfolding swap_zip by (rule dict_comp_distinct) simp
  have "map_of ?inv i = Some (node_ids ! i)" if "i < ?N" for i
    using that map_of_zip_nth [of "[0..<?N]" node_ids i] by simp
  then have em: "emap (getitem ?inv) order = Inr res"
    unfolding res_def using s [folded order_def]
    by (intro emap_ok) (auto simp: getitem_Some simp del: getitem_eq_Inr)
  have dr: "distinct res"
    unfolding res_def distinct_map
  proof
    show "distinct order" unfolding order_def by (rule d)
    show "inj_on (\<lambda>i. node_ids ! i) (set order)"
      by (rule inj_on_nth [OF dn]) (use s [folded order_def] in auto)
  qed
  let ?ri = "zip res [0..<length res]"
  have ri: "dict_comp (map (\<lambda>(k, v). (v, k)) (enumerate_py res)) = ?ri"
    unfolding enumerate_py_def swap_zip using dr by (intro dict_comp_distinct) simp
  have pos: "map_of ?ri u = Some (position res u)" if "u \<in> set res" for u
    using dr that by (rule map_of_zip_position)
  have ef: "efilter (\<lambda>r. ebind (getitem ?ri (r0 r)) (\<lambda>p0.
                             ebind (getitem ?ri (r1 r)) (\<lambda>p1. Inr (p0 > p1)))) conns' =
      Inr (filter (\<lambda>r. position res (r1 r) < position res (r0 r)) conns')"
  proof (rule efilter_ok)
    fix r assume "r \<in> set conns'"
    with c have "r0 r \<in> set res" "r1 r \<in> set res" unfolding res_def order_def by auto
    then show "ebind (getitem ?ri (r0 r)) (\<lambda>p0. ebind (getitem ?ri (r1 r)) (\<lambda>p1. Inr (p0 > p1))) =
        Inr (position res (r1 r) < position res (r0 r))"
      by (simp add: getitem_Some [OF pos] del: getitem_eq_Inr)
  qed
  have "finalize conns' (zip node_ids [0..<length node_ids]) f =
     (if wsum (\<lambda>r. position res (r1 r) < position res (r0 r)) conns' = feedback_val f
      then Inr (res, feedback_val f) else Inl (AssertionError 237))"
    unfolding finalize_def Let_def inv order_def [symmetric] em ebind_Inr ri ef
    by (simp add: wsum_def py_assert_def)
  then show ?thesis unfolding Let_def res_def order_def .
qed

subsection \<open>The whole run on a table without self-loops\<close>

lemma wsum_none: "(\<And>r. r \<in> set rs \<Longrightarrow> \<not> P r) \<Longrightarrow> wsum P rs = 0"
  by (induction rs) auto

lemma wt_edge_weight: "wt (edge_weight ct) u v = wsum (\<lambda>r. r0 r = u \<and> r1 r = v) ct"
proof (cases "\<exists>r\<in>set ct. r0 r = u \<and> r1 r = v")
  case True
  then show ?thesis by (simp add: wt_def edge_weight_def)
next
  case False
  then have "wsum (\<lambda>r. r0 r = u \<and> r1 r = v) ct = 0" by (intro wsum_none) blast
  with False show ?thesis by (simp add: wt_def edge_weight_def)
qed

lemma set_map_nth_upt: "set xs = {0..<length ys} \<Longrightarrow> set (map (\<lambda>i. ys ! i) xs) = set ys"
proof -
  assume "set xs = {0..<length ys}"
  then have "set (map (\<lambda>i. ys ! i) xs) = (\<lambda>i. ys ! i) ` {0..<length ys}" by simp
  also have "\<dots> = set ys" by (auto simp: set_conv_nth)
  finally show ?thesis .
qed

text \<open>The whole run on a table without self-loops.\<close>

lemma run_ok:
  fixes ct :: "'a row list"
  assumes ok: "set_iter_ok rt" and nsl: "\<not> (\<exists>r\<in>set ct. r0 r = r1 r)"
  shows "\<exists>conns' node_ids s0 f.
      initial_state rt g ct seed = Inr (conns', zip node_ids [0..<length node_ids], s0)
    \<and> main_loop rt (length node_ids) s0 = Inr f
    \<and> finalize conns' (zip node_ids [0..<length node_ids]) f =
         Inr (map (\<lambda>i. node_ids ! i) (left_list f @ rev (right_list f)), feedback_val f)
    \<and> distinct node_ids \<and> set node_ids = nodes_from_connections_table ct
    \<and> loop_inv (length node_ids) s0
    \<and> left_list s0 = [] \<and> right_list s0 = []
    \<and> set (keys (input_dict s0)) = {0..<length node_ids}
    \<and> (\<forall>a b. entry (output_dict s0) a b = resolved_weight node_ids ct a b)
    \<and> feedback_val s0 = initial_feedback (cweight node_ids ct)
    \<and> distinct (left_list f @ rev (right_list f))
    \<and> set (left_list f @ rev (right_list f)) = {0..<length node_ids}
    \<and> feedback_val f =
         wsum (\<lambda>r. position (map (\<lambda>i. node_ids ! i) (left_list f @ rev (right_list f))) (r1 r)
                  < position (map (\<lambda>i. node_ids ! i) (left_list f @ rev (right_list f))) (r0 r)) ct"
proof -
  from initial_state_ok [OF ok nsl, of g seed] obtain conns' node_ids s0 where
    i: "initial_state rt g ct seed = Inr (conns', zip node_ids [0..<length node_ids], s0)"
    and ms: "mset conns' = mset ct" and dn: "distinct node_ids"
    and sn: "set node_ids = nodes_from_connections_table ct"
    and inv: "loop_inv (length node_ids) s0"
    and k0: "set (keys (input_dict s0)) = {0..<length node_ids}"
    and l0: "left_list s0 = []" "right_list s0 = []"
    and e0: "\<And>a b. entry (output_dict s0) a b = resolved_weight node_ids ct a b"
    and f0: "feedback_val s0 = initial_feedback (cweight node_ids ct)"
    by blast
  let ?N = "length node_ids"
  let ?E = "cweight node_ids ct"
  from main_loop_ok [OF inv, of rt] obtain f X Y where
    m: "main_loop rt ?N s0 = Inr f"
    and l: "left_list f = left_list s0 @ X" and r: "right_list f = right_list s0 @ Y"
    and d: "distinct (X @ Y)" and s: "set (X @ Y) = set (keys (input_dict s0))"
    and fb: "feedback_val f =
         feedback_val s0 + backward_weight (wt (entry (output_dict s0))) (X @ rev Y)"
    by blast
  define order where "order = left_list f @ rev (right_list f)"
  define res where "res = map (\<lambda>i. node_ids ! i) order"
  have o: "order = X @ rev Y" by (simp add: order_def l r l0)
  have dord: "distinct order" using d by (auto simp: o)
  have sord: "set order = {0..<?N}" using s k0 by (auto simp: o)
  have sres: "set res = set node_ids" unfolding res_def using sord by (rule set_map_nth_upt)
  have e0': "entry (output_dict s0) = resolved ?E (anti_parallel_pairs ?E)"
    by (intro ext) (simp add: e0 resolved_weight_def)
  have "feedback_val f = initial_feedback ?E
      + backward_weight (wt (resolved ?E (anti_parallel_pairs ?E))) order"
    using fb by (simp add: f0 e0' o)
  also have "\<dots> = backward_weight (wt ?E) order"
    using dord sord by (intro backward_weight_resolved [symmetric]) (auto dest: cweight_bounds)
  also have "\<dots> = backward_weight (\<lambda>a b. wsum (\<lambda>r. r0 r = node_ids ! a \<and> r1 r = node_ids ! b) ct) order"
  proof (rule backward_weight_cong)
    fix a b assume "a \<in> set order" "b \<in> set order"
    then have "a < ?N" "b < ?N" by (simp_all add: sord)
    then show "wt ?E a b = wsum (\<lambda>r. r0 r = node_ids ! a \<and> r1 r = node_ids ! b) ct"
      using wt_edge_weight [of ct "node_ids ! a" "node_ids ! b"] by (simp add: wt_def cweight_def)
  qed
  also have "\<dots> = backward_weight (\<lambda>u v. wsum (\<lambda>r. r0 r = u \<and> r1 r = v) ct) res"
    unfolding res_def by (simp add: backward_weight_map)
  also have "\<dots> = wsum (\<lambda>r. position res (r1 r) < position res (r0 r)) ct"
  proof (rule backward_weight_rows)
    show "distinct res"
      unfolding res_def distinct_map using dord
      by (intro conjI inj_on_nth [OF dn]) (auto simp: sord)
    show "\<forall>r\<in>set ct. r0 r \<in> set res \<and> r1 r \<in> set res"
      by (auto simp: sres sn nodes_from_connections_table_def)
  qed
  finally have fbf: "feedback_val f = wsum (\<lambda>r. position res (r1 r) < position res (r0 r)) ct" .
  have c: "\<forall>r\<in>set conns'. r0 r \<in> set res \<and> r1 r \<in> set res"
    using mset_eq_setD [OF ms] by (auto simp: sres sn nodes_from_connections_table_def)
  have "finalize conns' (zip node_ids [0..<?N]) f =
     (let res = map (\<lambda>i. node_ids ! i) (left_list f @ rev (right_list f)) in
      if wsum (\<lambda>r. position res (r1 r) < position res (r0 r)) conns' = feedback_val f
      then Inr (res, feedback_val f) else Inl (AssertionError 237))"
    using dn dord sord c unfolding res_def order_def by (intro finalize_eq) auto
  moreover have "wsum (\<lambda>r. position res (r1 r) < position res (r0 r)) conns' = feedback_val f"
    unfolding fbf using ms by (rule wsum_mset)
  ultimately have fin: "finalize conns' (zip node_ids [0..<?N]) f = Inr (res, feedback_val f)"
    unfolding Let_def res_def order_def by simp
  from i m fin dn sn inv l0 k0 e0 f0 dord sord fbf show ?thesis
    unfolding res_def order_def by blast
qed

subsection \<open>Acyclic graphs\<close>

definition out_edges :: "graph \<Rightarrow> (nat \<times> nat) set" where
  "out_edges od = {(a, b). entry od a b \<noteq> None}"

lemma trancl_hom:
  assumes "\<And>a b. (a, b) \<in> r \<Longrightarrow> (f a, f b) \<in> r'"
  shows "(a, b) \<in> r\<^sup>+ \<Longrightarrow> (f a, f b) \<in> r'\<^sup>+"
proof (induction rule: trancl_induct)
  case (base y)
  then show ?case using assms by blast
next
  case (step y z)
  from step(2) have "(f y, f z) \<in> r'" by (rule assms)
  with step(3) show ?case by (rule trancl_into_trancl)
qed

lemma acyclic_hom:
  assumes "acyclic r'" "\<And>a b. (a, b) \<in> r \<Longrightarrow> (f a, f b) \<in> r'"
  shows "acyclic r"
  unfolding acyclic_def
proof (intro allI notI)
  fix x assume x: "(x, x) \<in> r\<^sup>+"
  have "(f x, f x) \<in> r'\<^sup>+" by (rule trancl_hom [where r = r]) (use assms(2) x in auto)
  with assms(1) show False by (simp add: acyclic_def)
qed

lemma sink_exists:
  assumes fin: "finite R" and ne: "R \<noteq> {}" and sub: "r \<subseteq> R \<times> R" and ac: "acyclic r"
  shows "\<exists>m\<in>R. \<forall>b. (m, b) \<notin> r"
proof -
  have "finite r" using sub fin by (auto intro: finite_subset)
  then have "wf (r\<inverse>)" using ac by (rule finite_acyclic_wf_converse)
  moreover from ne obtain x where "x \<in> R" by blast
  ultimately obtain z where z: "z \<in> R" "\<And>y. (y, z) \<in> r\<inverse> \<Longrightarrow> y \<notin> R"
    by (rule wfE_min) blast
  have "(z, b) \<notin> r" for b
  proof
    assume "(z, b) \<in> r"
    then have "b \<in> R" "(b, z) \<in> r\<inverse>" using sub by auto
    with z(2) show False by blast
  qed
  with z(1) show ?thesis by blast
qed

lemma loop_inv_sink:
  assumes inv: "loop_inv N s" and lt: "length (left_list s) + length (right_list s) < N"
    and ac: "acyclic (out_edges (output_dict s))"
  shows "bucket_truthy (buckets s) Sinks"
proof -
  let ?R = "set (keys (input_dict s))"
  from inv have g: "graph_ok (input_dict s) (output_dict s)"
    and bm: "bucket_members ?R (buckets s) (node_to_bucket_key s)"
    and bk: "bucket_keys_ok ?R (input_dict s) (output_dict s) (node_to_bucket_key s)"
    by (auto simp: loop_inv_def)
  from g have ks: "set (keys (input_dict s)) = set (keys (output_dict s))"
    and closed: "\<And>a b w. entry (output_dict s) a b = Some w \<Longrightarrow> b \<in> set (keys (output_dict s))"
    unfolding graph_ok_def by blast+
  from loop_inv_card [OF inv] lt have "card ?R > 0" by simp
  then have ne: "?R \<noteq> {}" by auto
  have sub: "out_edges (output_dict s) \<subseteq> ?R \<times> ?R"
    using closed by (auto simp: out_edges_def ks dest: entry_keys)
  from sink_exists [OF _ ne sub ac] obtain m where m: "m \<in> ?R"
    "\<And>b. (m, b) \<notin> out_edges (output_dict s)" by auto
  from m(1) ks obtain d where d: "map_of (output_dict s) m = Some d"
    using in_keys_map_of [of m "output_dict s"] by auto
  have "d = []"
  proof (cases d)
    case (Cons p ps)
    then have "map_of d (fst p) = Some (snd p)" by simp
    then have "(m, fst p) \<in> out_edges (output_dict s)" using d by (simp add: out_edges_def entry_def)
    with m(2) show ?thesis by blast
  qed simp
  with d have "compute_bucket_key_for_node (input_dict s) (output_dict s) m = Sinks"
    by (simp add: key_Sinks)
  with bk m(1) have "map_of (node_to_bucket_key s) m = Some Sinks" by (simp add: bucket_keys_ok_def)
  moreover from bm m(1) obtain k bs where "map_of (node_to_bucket_key s) m = Some k"
    "map_of (buckets s) k = Some bs" "m \<in> set bs" unfolding bucket_members_def by blast
  ultimately have "map_of (buckets s) Sinks = Some bs" "bs \<noteq> []" by auto
  then show ?thesis by (auto simp: bucket_truthy_iff)
qed

lemma main_loop_acyclic:
  assumes "loop_inv N s" "acyclic (out_edges (output_dict s))"
  shows "\<exists>f Y. main_loop rt N s = Inr f
     \<and> left_list f = left_list s \<and> right_list f = right_list s @ Y
     \<and> feedback_val f = feedback_val s
     \<and> distinct Y \<and> set Y = set (keys (input_dict s))
     \<and> (\<forall>a b. entry (output_dict s) a b \<noteq> None \<longrightarrow> position Y b < position Y a)"
  using assms
proof (induction "N - (length (left_list s) + length (right_list s))" arbitrary: s)
  case 0
  let ?R = "set (keys (input_dict s))"
  from loop_inv_card [OF 0(2)] 0(1) have "card ?R = 0" by arith
  then have R: "?R = {}" by simp
  from loop_inv_card [OF 0(2)] R have "\<not> length (left_list s) + length (right_list s) < N" by simp
  then have run: "main_loop rt N s = Inr s" by (subst main_loop.simps) simp
  have "entry (output_dict s) a b = None" for a b
  proof (cases "entry (output_dict s) a b")
    case (Some w)
    then have "a \<in> set (keys (output_dict s))" by (rule entry_keys)
    moreover from 0(2) have "set (keys (input_dict s)) = set (keys (output_dict s))"
      unfolding loop_inv_def graph_ok_def by blast
    ultimately show ?thesis using R by simp
  qed simp
  with run R show ?case by (intro exI [of _ s] exI [of _ "[]"]) simp
next
  case (Suc k)
  let ?R = "set (keys (input_dict s))"
  from Suc(2) have lt: "length (left_list s) + length (right_list s) < N" by simp
  from loop_inv_sink [OF Suc(3) lt Suc(4)] have sk: "bucket_truthy (buckets s) Sinks" .
  from loop_body_ok [OF Suc(3) lt, of rt] sk obtain s' n where
    b: "loop_body rt s = Inr s'" and inv': "loop_inv N s'" and n: "n \<in> ?R"
    and i': "input_dict s' = remove_node n (input_dict s)"
    and o': "output_dict s' = remove_node n (output_dict s)"
    and c: "map_of (output_dict s) n = Some []" "left_list s' = left_list s"
      "right_list s' = right_list s @ [n]" "feedback_val s' = feedback_val s"
    by auto
  from loop_body_placed [OF b] Suc(2)
  have k: "k = N - (length (left_list s') + length (right_list s'))" by simp
  have "out_edges (output_dict s') \<subseteq> out_edges (output_dict s)"
    by (auto simp: out_edges_def o' entry_remove_node split: if_splits)
  with Suc(4) have ac': "acyclic (out_edges (output_dict s'))" by (rule acyclic_subset)
  from Suc(1) [OF k inv' ac'] obtain f Y where
    m: "main_loop rt N s' = Inr f" and l: "left_list f = left_list s'"
    and r: "right_list f = right_list s' @ Y" and fb: "feedback_val f = feedback_val s'"
    and d: "distinct Y" and st: "set Y = set (keys (input_dict s'))"
    and t: "\<And>a b. entry (output_dict s') a b \<noteq> None \<Longrightarrow> position Y b < position Y a"
    by blast
  have run: "main_loop rt N s = Inr f" by (subst main_loop.simps) (simp add: lt b m)
  have st': "set Y = ?R - {n}" using st by (simp add: i' keys_remove_node)
  have top: "position (n # Y) b < position (n # Y) a" if e: "entry (output_dict s) a b \<noteq> None" for a b
  proof -
    have an: "a \<noteq> n" using e c(1) by (auto simp: entry_def)
    show ?thesis
    proof (cases "b = n")
      case True
      with an show ?thesis by simp
    next
      case False
      with an e have "entry (output_dict s') a b \<noteq> None" by (simp add: o' entry_remove_node)
      from t [OF this] an False show ?thesis by simp
    qed
  qed
  have "distinct (n # Y)" "set (n # Y) = ?R" using d st' n by auto
  with run l r fb c top show ?case
    by (intro exI [of _ f] exI [of _ "n # Y"]) simp
qed

lemma position_map:
  "inj_on h (insert a (set xs)) \<Longrightarrow> position (map h xs) (h a) = position xs a"
  by (induction xs) (auto simp: inj_on_def)

lemma position_append:
  "position (xs @ ys) a = (if a \<in> set xs then position xs a else length xs + position ys a)"
  by (induction xs) auto

lemma position_rev:
  "distinct xs \<Longrightarrow> a \<in> set xs \<Longrightarrow> position (rev xs) a = length xs - 1 - position xs a"
proof (induction xs)
  case Nil
  then show ?case by simp
next
  case (Cons x xs)
  show ?case
  proof (cases "a = x")
    case True
    with Cons.prems show ?thesis by (simp add: position_append)
  next
    case False
    with Cons.prems have "a \<in> set xs" "distinct xs" by auto
    from Cons.IH [OF this(2,1)] position_less [OF this(1)] False \<open>a \<in> set xs\<close>
    show ?thesis by (simp add: position_append)
  qed
qed

subsection \<open>One iteration of the main loop\<close>

text \<open>
  One iteration as section 4.4 of the specification words it: a node of the Sink bucket
  goes to the right list if that bucket exists, else a node of the Source bucket goes to
  the left list if that bucket exists, else a node of the numeric bucket with the largest
  key goes to the left list and the sum of its current incoming weights is added to the
  feedback total.
\<close>

definition greedy_step_spec :: "state \<Rightarrow> state \<Rightarrow> bool" where
  "greedy_step_spec s s' =
     (if Sinks \<in> set (keys (buckets s)) then
        (\<exists>n\<in>set (the (map_of (buckets s) Sinks)).
           right_list s' = right_list s @ [n] \<and> left_list s' = left_list s
           \<and> feedback_val s' = feedback_val s)
      else if Sources \<in> set (keys (buckets s)) then
        (\<exists>n\<in>set (the (map_of (buckets s) Sources)).
           left_list s' = left_list s @ [n] \<and> right_list s' = right_list s
           \<and> feedback_val s' = feedback_val s)
      else
        (\<exists>n\<in>set (the (map_of (buckets s) (Delta (Max (set (delta_keys (buckets s))))))).
           left_list s' = left_list s @ [n] \<and> right_list s' = right_list s
           \<and> feedback_val s' =
               feedback_val s + sum_list (values_of (the (map_of (input_dict s) n)))))"

lemma main_loop_iterate:
  "main_loop rt N s = iterate_loop rt (N - (length (left_list s) + length (right_list s))) s"
proof (induction "N - (length (left_list s) + length (right_list s))" arbitrary: s)
  case 0
  then have "\<not> length (left_list s) + length (right_list s) < N" by simp
  then have "main_loop rt N s = Inr s" by (subst main_loop.simps) simp
  with 0 show ?case by simp
next
  case (Suc k)
  then have lt: "length (left_list s) + length (right_list s) < N" by simp
  show ?case
  proof (cases "loop_body rt s")
    case (Inl e)
    then have "main_loop rt N s = Inl e" by (subst main_loop.simps) (simp add: lt)
    with Inl Suc(2) [symmetric] show ?thesis by simp
  next
    case (Inr s')
    from loop_body_placed [OF Inr] Suc(2)
    have k: "k = N - (length (left_list s') + length (right_list s'))" by simp
    have "main_loop rt N s = main_loop rt N s'" by (subst main_loop.simps) (simp add: lt Inr)
    also have "\<dots> = iterate_loop rt k s'" unfolding k by (rule Suc(1) [OF k])
    finally show ?thesis using Inr Suc(2) [symmetric] by simp
  qed
qed

lemma iterate_loop_inv:
  "loop_inv N s \<Longrightarrow> length (left_list s) + length (right_list s) + k \<le> N \<Longrightarrow>
   \<exists>s'. iterate_loop rt k s = Inr s' \<and> loop_inv N s'
      \<and> length (left_list s') + length (right_list s') =
          length (left_list s) + length (right_list s) + k"
proof (induction k arbitrary: s)
  case 0
  then show ?case by simp
next
  case (Suc k)
  from Suc.prems(2) have lt: "length (left_list s) + length (right_list s) < N" by simp
  from loop_body_ok [OF Suc.prems(1) lt, of rt] obtain s1 where
    b: "loop_body rt s = Inr s1" and inv1: "loop_inv N s1" by blast
  from loop_body_placed [OF b] Suc.prems(2)
  have le: "length (left_list s1) + length (right_list s1) + k \<le> N" by simp
  from Suc.IH [OF inv1 le] loop_body_placed [OF b] b show ?case by auto
qed

lemma pop_from_bucket_mem:
  "pop_from_bucket rt step b k = Inr (n, b') \<Longrightarrow> \<exists>bs. map_of b k = Some bs \<and> n \<in> set bs"
  by (auto simp: pop_from_bucket_def ebind_eq_Inr_iff Let_def split: if_splits)

lemma loop_body_code:
  assumes "loop_body rt s = Inr s'"
  shows "if bucket_truthy (buckets s) Sinks then
           (\<exists>bs n. map_of (buckets s) Sinks = Some bs \<and> n \<in> set bs
              \<and> right_list s' = right_list s @ [n] \<and> left_list s' = left_list s
              \<and> feedback_val s' = feedback_val s)
         else if bucket_truthy (buckets s) Sources then
           (\<exists>bs n. map_of (buckets s) Sources = Some bs \<and> n \<in> set bs
              \<and> left_list s' = left_list s @ [n] \<and> right_list s' = right_list s
              \<and> feedback_val s' = feedback_val s)
         else
           (\<exists>bs n. map_of (buckets s) (Delta (Max (set (delta_keys (buckets s))))) = Some bs
              \<and> n \<in> set bs
              \<and> left_list s' = left_list s @ [n] \<and> right_list s' = right_list s
              \<and> feedback_val s' =
                  feedback_val s + sum_list (values_of (the (map_of (input_dict s) n))))"
proof (cases "bucket_truthy (buckets s) Sinks")
  case True
  with assms obtain n b where p: "pop_from_bucket rt (length (left_list s) + length (right_list s))
      (buckets s) Sinks = Inr (n, b)"
    and u: "update_removed_node rt (s\<lparr>buckets := b, right_list := right_list s @ [n]\<rparr>) n = Inr s'"
    by (auto simp: loop_body_def Let_def ebind_eq_Inr_iff)
  from pop_from_bucket_mem [OF p] update_removed_node_lists [OF u] True show ?thesis by auto
next
  case F1: False
  show ?thesis
  proof (cases "bucket_truthy (buckets s) Sources")
    case True
    with assms F1 obtain n b where p: "pop_from_bucket rt (length (left_list s) + length (right_list s))
        (buckets s) Sources = Inr (n, b)"
      and u: "update_removed_node rt (s\<lparr>buckets := b, left_list := left_list s @ [n]\<rparr>) n = Inr s'"
      by (auto simp: loop_body_def Let_def ebind_eq_Inr_iff)
    from pop_from_bucket_mem [OF p] update_removed_node_lists [OF u] True F1 show ?thesis by auto
  next
    case False
    let ?md = "Max (set (delta_keys (buckets s)))"
    from assms F1 False obtain n b in_n where
      p: "pop_from_bucket rt (length (left_list s) + length (right_list s))
        (buckets s) (Delta ?md) = Inr (n, b)"
      and i: "map_of (input_dict s) n = Some in_n"
      and u: "update_removed_node rt (s\<lparr>buckets := b, left_list := left_list s @ [n],
                   feedback_val := feedback_val s + sum_list (values_of in_n)\<rparr>) n = Inr s'"
      by (auto simp: loop_body_def Let_def ebind_eq_Inr_iff max_delta_key_def split: if_splits)
    from pop_from_bucket_mem [OF p] update_removed_node_lists [OF u] i False F1 show ?thesis by auto
  qed
qed

lemma bucket_truthy_keys:
  "bucket_members S b n2k \<Longrightarrow> bucket_truthy b k \<longleftrightarrow> k \<in> set (keys b)"
proof
  assume "bucket_truthy b k"
  then show "k \<in> set (keys b)"
    by (auto simp: bucket_truthy_iff keys_def dest!: map_of_SomeD intro: rev_image_eqI)
next
  assume bm: "bucket_members S b n2k" and "k \<in> set (keys b)"
  then obtain bs where "map_of b k = Some bs" by (auto dest: in_keys_map_of)
  with bm show "bucket_truthy b k" by (auto simp: bucket_truthy_iff bucket_members_def)
qed

lemma loop_body_spec:
  assumes "loop_body rt s = Inr s'" "bucket_members S (buckets s) (node_to_bucket_key s)"
  shows "greedy_step_spec s s'"
  using loop_body_code [OF assms(1)]
  unfolding greedy_step_spec_def bucket_truthy_keys [OF assms(2), symmetric]
  by (auto split: if_splits)

subsection \<open>The result of compute_order\<close>

lemma rt_example_ok: "set_iter_ok rt_example"
  by (simp add: set_iter_ok_def rt_example_def)



lemma initial_state_loop_inv:
  fixes ct :: "'a row list"
  assumes ok: "set_iter_ok rt" and i: "initial_state rt g ct seed = Inr (conns', nc, s0)"
  shows "loop_inv (length nc) s0 \<and> left_list s0 = [] \<and> right_list s0 = []"
proof -
  have nsl: "\<not> (\<exists>r\<in>set ct. r0 r = r1 r)"
  proof
    assume "\<exists>r\<in>set ct. r0 r = r1 r"
    from initial_state_self_loop [OF ok this, of g seed] i show False by simp
  qed
  from initial_state_ok [OF ok nsl, of g seed] i show ?thesis by auto
qed

section \<open>The claims\<close>

text \<open>
  Throughout, \<open>set_iter_ok rt\<close> says that the runtime iterates a finite set by listing each
  of its elements once; \<open>rt_example\<close> is such a runtime. The theorems hold for every such
  runtime, that is for every order of set iteration, every choice of \<^verbatim>\<open>set.pop()\<close> and every
  sequence of draws. The weights are arbitrary integers: no theorem below needs them to
  be non-negative.
\<close>









text \<open>
  C4 (amended). The resolution step succeeds on every input. For every pair of distinct
  nodes with edges in both directions, of weights \<open>w1 \<le> w2\<close>, the edge of weight \<open>w1\<close> is
  removed and exactly the other direction remains, with weight \<open>w2 - w1\<close>: weight \<open>0\<close> when
  \<open>w1 = w2\<close>, where the direction that remains leads from the smaller compacted id to the
  larger one. All other entries are unchanged, the two dicts stay mirror images, and the
  feedback total is the sum, over the anti-parallel pairs, of the smaller weight \<open>w1\<close>.
\<close>

theorem anti_parallel_resolution:
  assumes "set_iter_ok rt"
  shows "\<exists>connections' nodes_compacted idd0 od0 idd od.
      compact_graph rt g connections random_seed = Inr (connections', nodes_compacted, idd0, od0)
    \<and> resolve_graph rt g connections random_seed =
         Inr (connections', nodes_compacted, idd, od, initial_feedback (entry od0))
    \<and> (\<forall>a b w1 w2.
          a \<noteq> b \<and> entry od0 a b = Some w1 \<and> entry od0 b a = Some w2
          \<and> (w1 < w2 \<or> (w1 = w2 \<and> b < a)) \<longrightarrow>
          entry od a b = None \<and> entry od b a = Some (w2 - w1))
    \<and> (\<forall>a b. a = b \<or> entry od0 b a = None \<longrightarrow> entry od a b = entry od0 a b)
    \<and> adjacency_symmetric idd od"
proof -
  from resolution_ok [OF assms, of g connections random_seed]
  obtain conns' node_ids idd0 od0 idd od where
    c: "compact_graph rt g connections random_seed =
          Inr (conns', zip node_ids [0..<length node_ids], idd0, od0)"
    and r: "remove_anti_parallel idd0 od0 =
          Inr (idd, od, initial_feedback (cweight node_ids connections))"
    and e0: "\<And>a b. entry od0 a b = cweight node_ids connections a b"
    and eo: "\<And>a b. entry od a b = resolved (cweight node_ids connections)
          (anti_parallel_pairs (cweight node_ids connections)) a b"
    and ei: "\<And>a b. entry idd b a = resolved (cweight node_ids connections)
          (anti_parallel_pairs (cweight node_ids connections)) a b"
    by blast
  let ?E = "entry od0"
  have E: "cweight node_ids connections = ?E" by (intro ext) (simp add: e0)
  note eo' = eo [unfolded E] and ei' = ei [unfolded E]
  have run: "resolve_graph rt g connections random_seed =
      Inr (conns', zip node_ids [0..<length node_ids], idd, od, initial_feedback ?E)"
    using c r by (simp add: resolve_graph_def E)
  have 1: "entry od a b = None \<and> entry od b a = Some (w2 - w1)"
    if "a \<noteq> b \<and> ?E a b = Some w1 \<and> ?E b a = Some w2 \<and> (w1 < w2 \<or> (w1 = w2 \<and> b < a))"
    for a b w1 w2
  proof -
    from that have "(a, b) \<in> anti_parallel_pairs ?E \<or> (b, a) \<in> anti_parallel_pairs ?E"
      by (cases "a < b") (auto simp: anti_parallel_pairs_def)
    with that show ?thesis by (auto simp: eo' resolved_def)
  qed
  have 2: "entry od a b = ?E a b" if "a = b \<or> ?E b a = None" for a b
    using that by (auto simp: eo' resolved_def anti_parallel_pairs_def)
  have 3: "adjacency_symmetric idd od"
    by (simp add: adjacency_symmetric_iff eo' ei')
  from c run 1 2 3 show ?thesis by blast
qed

theorem anti_parallel_resolution_witness:
  "set_iter_ok rt_example
   \<and> compact_graph rt_example () [(0::nat, 1, 5), (1, 0, 3)] 0 =
       Inr ([(1, 0, 3), (0, 1, 5)], [(1, 0), (0, 1)],
            [(1, [(0, 3)]), (0, [(1, 5)])], [(1, [(0, 5)]), (0, [(1, 3)])])
   \<and> (\<exists>idd od. resolve_graph rt_example () [(0::nat, 1, 5), (1, 0, 3)] 0 =
         Inr ([(1, 0, 3), (0, 1, 5)], [(1, 0), (0, 1)], idd, od,
              initial_feedback (entry [(1::nat, [(0::nat, 5::int)]), (0, [(1, 3)])]))
       \<and> entry od 0 1 = None \<and> entry od 1 0 = Some (5 - 3))"
proof -
  have c: "compact_graph rt_example () [(0::nat, 1, 5), (1, 0, 3)] 0 =
       Inr ([(1, 0, 3), (0, 1, 5)], [(1, 0), (0, 1)],
            [(1, [(0, 3)]), (0, [(1, 5)])], [(1, [(0, 5)]), (0, [(1, 3)])])" by code_simp
  have e: "entry [(1::nat, [(0::nat, 5::int)]), (0, [(1, 3)])] 0 1 = Some 3"
    "entry [(1::nat, [(0::nat, 5::int)]), (0, [(1, 3)])] 1 0 = Some 5" by code_simp+
  from anti_parallel_resolution [OF rt_example_ok, of "()" "[(0::nat, 1, 5), (1, 0, 3)]" 0] c
  obtain idd od where
    r: "resolve_graph rt_example () [(0::nat, 1, 5), (1, 0, 3)] 0 =
         Inr ([(1, 0, 3), (0, 1, 5)], [(1, 0), (0, 1)], idd, od,
              initial_feedback (entry [(1::nat, [(0::nat, 5::int)]), (0, [(1, 3)])]))"
    and p: "\<forall>a b w1 w2.
          a \<noteq> b \<and> entry [(1::nat, [(0::nat, 5::int)]), (0, [(1, 3)])] a b = Some w1
          \<and> entry [(1::nat, [(0::nat, 5::int)]), (0, [(1, 3)])] b a = Some w2
          \<and> (w1 < w2 \<or> (w1 = w2 \<and> b < a)) \<longrightarrow>
          entry od a b = None \<and> entry od b a = Some (w2 - w1)"
    by auto
  from p e have "entry od 0 1 = None \<and> entry od 1 0 = Some (5 - 3)"
    by (elim allE [where x = "0::nat"] allE [where x = "1::nat"] allE [where x = "3::int"]
        allE [where x = "5::int"]) simp
  with c r rt_example_ok show ?thesis by blast
qed

text \<open>
  C4 as stated fails when the two weights are equal: one direction is removed, the other
  stays in both dicts with weight \<open>0\<close> (here the edge from compacted id 0 to compacted id 1).
\<close>

theorem resolve_equal_weights_counterexample:
  "resolve_graph rt_example () [(0::nat, 1, 5), (1, 0, 5)] 0 =
     Inr ([(1, 0, 5), (0, 1, 5)], [(1, 0), (0, 1)],
          [(1, [(0, 0)]), (0, [])], [(1, []), (0, [(1, 0)])], 5)
   \<and> entry [(1::nat, []), (0, [(1::nat, 0::int)])] 0 1 = Some 0
   \<and> entry [(1::nat, [(0::nat, 0::int)]), (0, [])] 1 0 = Some 0"
  by code_simp

lemma ebind_assoc: "ebind (ebind m f) h = ebind m (\<lambda>x. ebind (f x) h)"
  by (cases m) simp_all

lemma iterate_loop_snoc:
  "iterate_loop rt (Suc k) s = ebind (iterate_loop rt k s) (loop_body rt)"
proof (induction k arbitrary: s)
  case 0
  show ?case by (cases "loop_body rt s") simp_all
next
  case (Suc k)
  show ?case
  proof (cases "loop_body rt s")
    case (Inl e)
    then show ?thesis by simp
  next
    case (Inr x)
    from Suc.IH [of x] show ?thesis by (simp add: Inr)
  qed
qed

lemma edge_in:
  "r \<in> set ct \<Longrightarrow> (r0 r, r1 r) \<in> {(r0 r, r1 r) | r. r \<in> set ct}"
  by blast

lemma acyclic_no_self_loop:
  assumes "acyclic {(r0 r, r1 r) | r. r \<in> set ct}"
  shows "\<not> (\<exists>r\<in>set ct. r0 r = r1 r)"
proof
  assume "\<exists>r\<in>set ct. r0 r = r1 r"
  then obtain r where r: "r \<in> set ct" "r0 r = r1 r" by blast
  from edge_in [OF r(1)] r(2) have "(r0 r, r0 r) \<in> {(r0 r, r1 r) | r. r \<in> set ct}" by simp
  then have "(r0 r, r0 r) \<in> {(r0 r, r1 r) | r. r \<in> set ct}\<^sup>+" by (rule r_into_trancl')
  with assms show False by (simp add: acyclic_def)
qed

lemma cweight_edge:
  assumes "cweight node_ids ct a b \<noteq> None"
  shows "(node_ids ! a, node_ids ! b) \<in> {(r0 r, r1 r) | r. r \<in> set ct}"
proof -
  from assms obtain r where r: "r \<in> set ct" "r0 r = node_ids ! a" "r1 r = node_ids ! b"
    unfolding cweight_def edge_weight_def by (meson option.distinct(1))
  from edge_in [OF r(1)] show ?thesis by (simp only: r)
qed

lemma acyclic_no_anti_parallel:
  assumes "acyclic {(r0 r, r1 r) | r. r \<in> set ct}"
  shows "anti_parallel_pairs (cweight node_ids ct) = {}"
proof (rule ccontr)
  let ?G = "{(r0 r, r1 r) | r. r \<in> set ct}"
  assume "anti_parallel_pairs (cweight node_ids ct) \<noteq> {}"
  then obtain a b where ab: "cweight node_ids ct a b \<noteq> None" "cweight node_ids ct b a \<noteq> None"
    by (auto simp: anti_parallel_pairs_def)
  have 1: "(node_ids ! a, node_ids ! b) \<in> ?G" by (rule cweight_edge [OF ab(1)])
  have 2: "(node_ids ! b, node_ids ! a) \<in> ?G" by (rule cweight_edge [OF ab(2)])
  from 1 2 have "(node_ids ! a, node_ids ! a) \<in> ?G\<^sup>+" by (rule trancl.intros(2) [OF r_into_trancl'])
  with assms show False by (simp add: acyclic_def)
qed

lemma acyclic_run:
  fixes ct :: "'a row list"
  assumes ok: "set_iter_ok rt" and ac: "acyclic {(r0 r, r1 r) | r. r \<in> set ct}"
  shows "\<exists>res. compute_order_locals rt g ct seed = Inr (res, 0)
             \<and> (\<forall>r\<in>set ct. position res (r0 r) < position res (r1 r))"
proof -
  let ?G = "{(r0 r, r1 r) | r. r \<in> set ct}"
  note nsl = acyclic_no_self_loop [OF ac]
  from run_ok [OF ok nsl, of g seed] obtain conns' node_ids s0 f where
    i: "initial_state rt g ct seed = Inr (conns', zip node_ids [0..<length node_ids], s0)"
    and m: "main_loop rt (length node_ids) s0 = Inr f"
    and fin: "finalize conns' (zip node_ids [0..<length node_ids]) f =
         Inr (map (\<lambda>i. node_ids ! i) (left_list f @ rev (right_list f)), feedback_val f)"
    and dn: "distinct node_ids" and sn: "set node_ids = nodes_from_connections_table ct"
    and inv: "loop_inv (length node_ids) s0"
    and l0: "left_list s0 = []" and r0: "right_list s0 = []"
    and ks: "set (keys (input_dict s0)) = {0..<length node_ids}"
    and eo: "\<And>a b. entry (output_dict s0) a b = resolved_weight node_ids ct a b"
    and fb0: "feedback_val s0 = initial_feedback (cweight node_ids ct)"
    by blast
  note ap = acyclic_no_anti_parallel [OF ac, of node_ids]
  have eo': "entry (output_dict s0) a b = cweight node_ids ct a b" for a b
    by (simp add: eo resolved_weight_def resolved_def ap)
  have fb0': "feedback_val s0 = 0" by (simp add: fb0 initial_feedback_def ap)
  have "acyclic (out_edges (output_dict s0))"
  proof (rule acyclic_hom [OF ac])
    fix a b assume "(a, b) \<in> out_edges (output_dict s0)"
    then have "cweight node_ids ct a b \<noteq> None" by (simp add: out_edges_def eo')
    then show "(node_ids ! a, node_ids ! b) \<in> ?G" by (rule cweight_edge)
  qed
  from main_loop_acyclic [OF inv this, of rt] obtain f' Y where
    m': "main_loop rt (length node_ids) s0 = Inr f'"
    and lf': "left_list f' = left_list s0" and rf': "right_list f' = right_list s0 @ Y"
    and ff': "feedback_val f' = feedback_val s0"
    and dY: "distinct Y" and sY': "set Y = set (keys (input_dict s0))"
    and pY': "\<forall>a b. entry (output_dict s0) a b \<noteq> None \<longrightarrow> position Y b < position Y a"
    by blast
  from m m' have f': "f' = f" by simp
  have lf: "left_list f = []" using lf' by (simp add: f' l0)
  have rf: "right_list f = Y" using rf' by (simp add: f' r0)
  have ff: "feedback_val f = 0" using ff' by (simp add: f' fb0')
  have sY: "set Y = {0..<length node_ids}" using sY' by (simp only: ks)
  have pY: "position Y b < position Y a" if "entry (output_dict s0) a b \<noteq> None" for a b
    using pY' that by blast
  define res where "res = map (\<lambda>i. node_ids ! i) (rev Y)"
  have run: "compute_order_locals rt g ct seed = Inr (res, 0)"
    unfolding compute_order_locals_def res_def by (simp add: i m fin lf rf ff)
  have inj: "inj_on (\<lambda>i. node_ids ! i) {0..<length node_ids}"
    by (rule inj_on_nth [OF dn]) simp
  have pos: "position res (node_ids ! a) = length Y - 1 - position Y a" if "a < length node_ids" for a
  proof -
    from that have aY: "a \<in> set Y" by (simp add: sY)
    from aY have "insert a (set (rev Y)) = set Y" by (simp add: insert_absorb)
    then have "insert a (set (rev Y)) = {0..<length node_ids}" by (simp only: sY)
    with inj have "inj_on (\<lambda>i. node_ids ! i) (insert a (set (rev Y)))" by simp
    then have "position res (node_ids ! a) = position (rev Y) a"
      unfolding res_def by (rule position_map)
    also have "\<dots> = length Y - 1 - position Y a" using dY aY by (rule position_rev)
    finally show ?thesis .
  qed
  have "position res (r0 r) < position res (r1 r)" if r: "r \<in> set ct" for r
  proof -
    from r have "r0 r \<in> set node_ids" "r1 r \<in> set node_ids"
      by (auto simp: sn nodes_from_connections_table_def)
    then obtain a b where a: "a < length node_ids" "node_ids ! a = r0 r"
      and b: "b < length node_ids" "node_ids ! b = r1 r"
      by (auto simp: in_set_conv_nth)
    from a b r have "cweight node_ids ct a b \<noteq> None"
      by (auto simp: cweight_def edge_weight_def)
    then have "position Y b < position Y a" by (intro pY) (simp add: eo')
    moreover have "position Y a < length Y" by (rule position_less) (simp add: sY a)
    ultimately have "length Y - 1 - position Y a < length Y - 1 - position Y b" by arith
    then show ?thesis using pos [OF a(1)] pos [OF b(1)] by (simp add: a b)
  qed
  with run show ?thesis by blast
qed

text \<open>
  C5. For every input whose directed graph is acyclic, the run succeeds, the final
  feedback total is \<open>0\<close>, and the returned order is a topological order: the source of every
  input edge is placed before its target.
\<close>

theorem acyclic_input_topological:
  assumes "set_iter_ok rt" and "acyclic {(r0 r, r1 r) | r. r \<in> set connections}"
  shows "\<exists>res. compute_order_locals rt g connections random_seed = Inr (res, 0)
           \<and> compute_order rt g connections random_seed = Inr res
           \<and> (\<forall>r\<in>set connections. position res (r0 r) < position res (r1 r))"
proof -
  from acyclic_run [OF assms, of g random_seed] obtain res where
    "compute_order_locals rt g connections random_seed = Inr (res, 0)"
    "\<forall>r\<in>set connections. position res (r0 r) < position res (r1 r)" by blast
  then show ?thesis by (auto simp: compute_order_def)
qed

theorem acyclic_input_topological_witness:
  "set_iter_ok rt_example
   \<and> acyclic {(r0 r, r1 r) | r. r \<in> set [(0::nat, 1::nat, 5::int), (1, 2, 5), (0, 2, 1)]}
   \<and> (\<exists>res. compute_order_locals rt_example () [(0::nat, 1, 5), (1, 2, 5), (0, 2, 1)] 0 = Inr (res, 0)
         \<and> compute_order rt_example () [(0::nat, 1, 5), (1, 2, 5), (0, 2, 1)] 0 = Inr res
         \<and> position res 0 < position res 1 \<and> position res 1 < position res 2
         \<and> position res 0 < position res 2)"
proof -
  have ac: "acyclic {(r0 r, r1 r) | r. r \<in> set [(0::nat, 1::nat, 5::int), (1, 2, 5), (0, 2, 1)]}"
    by (rule acyclicI_order [where f = "\<lambda>x. 2 - x"]) (auto simp: r0_def r1_def)
  from acyclic_input_topological [OF rt_example_ok ac, of "()" 0] obtain res where
    run: "compute_order_locals rt_example () [(0::nat, 1, 5), (1, 2, 5), (0, 2, 1)] 0 = Inr (res, 0)"
      "compute_order rt_example () [(0::nat, 1, 5), (1, 2, 5), (0, 2, 1)] 0 = Inr res"
    and top: "\<forall>r\<in>set [(0::nat, 1::nat, 5::int), (1, 2, 5), (0, 2, 1)].
        position res (r0 r) < position res (r1 r)"
    by blast
  from top have "position res 0 < position res 1 \<and> position res 1 < position res 2
         \<and> position res 0 < position res 2"
    by (simp add: r0_def r1_def)
  with run rt_example_ok ac show ?thesis by blast
qed

text \<open>
  C6. On every iteration of the main loop while unassigned nodes remain, the loop body
  succeeds and does what \<open>greedy_step_spec\<close> says: with a Sink bucket a node of it goes to the
  right list; else with a Source bucket a node of it goes to the left list; else a node of the
  numeric bucket with the maximum key goes to the left list and the sum of its current
  incoming weights is added to the feedback total. The state \<open>s\<close> before iteration \<open>k\<close> is the
  one reached from the initial state by \<open>k\<close> iterations, and the main loop is the iteration
  of the body once per node.
\<close>

theorem greedy_step_follows_spec:
  assumes "set_iter_ok rt"
    and "initial_state rt g connections random_seed = Inr (connections', nodes_compacted, s0)"
    and "k < length nodes_compacted"
  shows "\<exists>s s'. iterate_loop rt k s0 = Inr s
           \<and> length (left_list s) + length (right_list s) = k
           \<and> loop_body rt s = Inr s'
           \<and> iterate_loop rt (Suc k) s0 = Inr s'
           \<and> greedy_step_spec s s'
           \<and> main_loop rt (length nodes_compacted) s0 =
               iterate_loop rt (length nodes_compacted) s0"
proof -
  from initial_state_loop_inv [OF assms(1,2)]
  have inv0: "loop_inv (length nodes_compacted) s0"
    and l0: "left_list s0 = []" and r0: "right_list s0 = []" by blast+
  from assms(3) have "length (left_list s0) + length (right_list s0) + k \<le> length nodes_compacted"
    by (simp add: l0 r0)
  from iterate_loop_inv [OF inv0 this, of rt] obtain s where
    it: "iterate_loop rt k s0 = Inr s" and inv: "loop_inv (length nodes_compacted) s"
    and placed: "length (left_list s) + length (right_list s) = k"
    by (auto simp: l0 r0)
  from placed assms(3)
  have lt: "length (left_list s) + length (right_list s) < length nodes_compacted" by simp
  from loop_body_ok [OF inv lt, of rt] obtain s' where b: "loop_body rt s = Inr s'" by blast
  from inv have bm: "bucket_members (set (keys (input_dict s))) (buckets s) (node_to_bucket_key s)"
    unfolding loop_inv_def by blast
  have spec: "greedy_step_spec s s'" by (rule loop_body_spec [OF b bm])
  have nxt: "iterate_loop rt (Suc k) s0 = Inr s'"
    by (simp only: iterate_loop_snoc it ebind_Inr b)
  have "main_loop rt (length nodes_compacted) s0 = iterate_loop rt (length nodes_compacted) s0"
    by (simp add: main_loop_iterate [of rt _ s0] l0 r0)
  with it placed b nxt spec show ?thesis by blast
qed

theorem greedy_step_follows_spec_witness:
  "set_iter_ok rt_example
   \<and> initial_state rt_example () [(0::nat, 1, 5), (1, 2, 5), (2, 0, 5)] 0 =
       Inr ([(1, 2, 5), (2, 0, 5), (0, 1, 5)], [(1, 0), (2, 1), (0, 2)],
         \<lparr>input_dict = [(2, [(1, 5)]), (0, [(2, 5)]), (1, [(0, 5)])],
          output_dict = [(2, [(0, 5)]), (0, [(1, 5)]), (1, [(2, 5)])],
          buckets = [(Delta 0, [0, 1, 2])],
          node_to_bucket_key = [(0, Delta 0), (1, Delta 0), (2, Delta 0)],
          left_list = [], right_list = [], feedback_val = 0\<rparr>)
   \<and> (\<exists>s s'. iterate_loop rt_example 0
          \<lparr>input_dict = [(2, [(1, 5)]), (0, [(2, 5)]), (1, [(0, 5)])],
           output_dict = [(2, [(0, 5)]), (0, [(1, 5)]), (1, [(2, 5)])],
           buckets = [(Delta 0, [0, 1, 2])],
           node_to_bucket_key = [(0, Delta 0), (1, Delta 0), (2, Delta 0)],
           left_list = [], right_list = [], feedback_val = 0\<rparr> = Inr s
        \<and> loop_body rt_example s = Inr s' \<and> greedy_step_spec s s')"
proof -
  have i: "initial_state rt_example () [(0::nat, 1, 5), (1, 2, 5), (2, 0, 5)] 0 =
       Inr ([(1, 2, 5), (2, 0, 5), (0, 1, 5)], [(1, 0), (2, 1), (0, 2)],
         \<lparr>input_dict = [(2, [(1, 5)]), (0, [(2, 5)]), (1, [(0, 5)])],
          output_dict = [(2, [(0, 5)]), (0, [(1, 5)]), (1, [(2, 5)])],
          buckets = [(Delta 0, [0, 1, 2])],
          node_to_bucket_key = [(0, Delta 0), (1, Delta 0), (2, Delta 0)],
          left_list = [], right_list = [], feedback_val = 0\<rparr>)" by code_simp
  have k: "0 < length [(1::nat, 0::nat), (2, 1), (0, 2)]" by simp
  from greedy_step_follows_spec [OF rt_example_ok i k] i rt_example_ok
  show ?thesis by blast
qed

text \<open>
  C7. The adjacency symmetry invariant (the outgoing map of \<open>A\<close> contains \<open>B\<close> with weight \<open>w\<close>
  if and only if the incoming map of \<open>B\<close> contains \<open>A\<close> with weight \<open>w\<close>) holds after graph
  construction, after anti-parallel resolution, and in the state reached after each number
  \<open>k\<close> of node removals of the greedy loop; each of these points is reached.
\<close>

theorem adjacency_symmetry_invariant:
  assumes "set_iter_ok rt"
  shows "(\<exists>connections' nodes_compacted idd od.
            compact_graph rt g connections random_seed = Inr (connections', nodes_compacted, idd, od)
          \<and> adjacency_symmetric idd od)
       \<and> (\<exists>connections' nodes_compacted idd od fb.
            resolve_graph rt g connections random_seed = Inr (connections', nodes_compacted, idd, od, fb)
          \<and> adjacency_symmetric idd od)
       \<and> (\<forall>connections' nodes_compacted s0 k.
            initial_state rt g connections random_seed = Inr (connections', nodes_compacted, s0)
          \<and> k \<le> length nodes_compacted \<longrightarrow>
            (\<exists>s. iterate_loop rt k s0 = Inr s
               \<and> adjacency_symmetric (input_dict s) (output_dict s)))"
proof -
  from resolution_ok [OF assms, of g connections random_seed]
  obtain conns' node_ids idd0 od0 idd od where
    c: "compact_graph rt g connections random_seed =
          Inr (conns', zip node_ids [0..<length node_ids], idd0, od0)"
    and r: "remove_anti_parallel idd0 od0 =
          Inr (idd, od, initial_feedback (cweight node_ids connections))"
    and eo0: "\<And>a b. entry od0 a b = cweight node_ids connections a b"
    and ei0: "\<And>a b. entry idd0 b a = cweight node_ids connections a b"
    and eo: "\<And>a b. entry od a b = resolved (cweight node_ids connections)
          (anti_parallel_pairs (cweight node_ids connections)) a b"
    and ei: "\<And>a b. entry idd b a = resolved (cweight node_ids connections)
          (anti_parallel_pairs (cweight node_ids connections)) a b"
    by blast
  have s0: "adjacency_symmetric idd0 od0" by (simp add: adjacency_symmetric_iff eo0 ei0)
  have s1: "adjacency_symmetric idd od" by (simp add: adjacency_symmetric_iff eo ei)
  have run: "resolve_graph rt g connections random_seed =
      Inr (conns', zip node_ids [0..<length node_ids], idd, od,
           initial_feedback (cweight node_ids connections))"
    using c r by (simp add: resolve_graph_def)
  have loop: "\<exists>s. iterate_loop rt k s0 = Inr s \<and> adjacency_symmetric (input_dict s) (output_dict s)"
    if i: "initial_state rt g connections random_seed = Inr (connections', nodes_compacted, s0)"
      and k: "k \<le> length nodes_compacted" for connections' nodes_compacted s0 k
  proof -
    from initial_state_loop_inv [OF assms i]
    have inv0: "loop_inv (length nodes_compacted) s0"
      and l0: "left_list s0 = []" and r0: "right_list s0 = []" by blast+
    from k have "length (left_list s0) + length (right_list s0) + k \<le> length nodes_compacted"
      by (simp add: l0 r0)
    from iterate_loop_inv [OF inv0 this, of rt] obtain s where
      it: "iterate_loop rt k s0 = Inr s" and inv: "loop_inv (length nodes_compacted) s"
      by blast
    from inv have "\<forall>a b. entry (output_dict s) a b = entry (input_dict s) b a"
      unfolding loop_inv_def graph_ok_def by blast
    then have "adjacency_symmetric (input_dict s) (output_dict s)"
      by (simp add: adjacency_symmetric_iff)
    with it show ?thesis by blast
  qed
  from c s0 run s1 loop show ?thesis by blast
qed

theorem adjacency_symmetry_invariant_witness:
  "set_iter_ok rt_example
   \<and> initial_state rt_example () [(0::nat, 1, 5), (1, 2, 5), (2, 0, 5)] 0 =
       Inr ([(1, 2, 5), (2, 0, 5), (0, 1, 5)], [(1, 0), (2, 1), (0, 2)],
         \<lparr>input_dict = [(2, [(1, 5)]), (0, [(2, 5)]), (1, [(0, 5)])],
          output_dict = [(2, [(0, 5)]), (0, [(1, 5)]), (1, [(2, 5)])],
          buckets = [(Delta 0, [0, 1, 2])],
          node_to_bucket_key = [(0, Delta 0), (1, Delta 0), (2, Delta 0)],
          left_list = [], right_list = [], feedback_val = 0\<rparr>)
   \<and> (\<exists>s. iterate_loop rt_example 2
          \<lparr>input_dict = [(2, [(1, 5)]), (0, [(2, 5)]), (1, [(0, 5)])],
           output_dict = [(2, [(0, 5)]), (0, [(1, 5)]), (1, [(2, 5)])],
           buckets = [(Delta 0, [0, 1, 2])],
           node_to_bucket_key = [(0, Delta 0), (1, Delta 0), (2, Delta 0)],
           left_list = [], right_list = [], feedback_val = 0\<rparr> = Inr s
        \<and> adjacency_symmetric (input_dict s) (output_dict s))"
proof -
  have i: "initial_state rt_example () [(0::nat, 1, 5), (1, 2, 5), (2, 0, 5)] 0 =
       Inr ([(1, 2, 5), (2, 0, 5), (0, 1, 5)], [(1, 0), (2, 1), (0, 2)],
         \<lparr>input_dict = [(2, [(1, 5)]), (0, [(2, 5)]), (1, [(0, 5)])],
          output_dict = [(2, [(0, 5)]), (0, [(1, 5)]), (1, [(2, 5)])],
          buckets = [(Delta 0, [0, 1, 2])],
          node_to_bucket_key = [(0, Delta 0), (1, Delta 0), (2, Delta 0)],
          left_list = [], right_list = [], feedback_val = 0\<rparr>)" by code_simp
  have k: "2 \<le> length [(1::nat, 0::nat), (2, 1), (0, 2)]" by simp
  from adjacency_symmetry_invariant [OF rt_example_ok, of "()" "[(0::nat, 1, 5), (1, 2, 5), (2, 0, 5)]" 0]
  have "\<forall>connections' nodes_compacted s0 k.
            initial_state rt_example () [(0::nat, 1, 5), (1, 2, 5), (2, 0, 5)] 0 =
              Inr (connections', nodes_compacted, s0)
          \<and> k \<le> length nodes_compacted \<longrightarrow>
            (\<exists>s. iterate_loop rt_example k s0 = Inr s
               \<and> adjacency_symmetric (input_dict s) (output_dict s))" by blast
  with i k rt_example_ok show ?thesis by blast
qed




text \<open>
  What \<^verbatim>\<open>update_removed_node\<close> would do with a self-loop node that has already been popped
  from its bucket: the lookup in \<^verbatim>\<open>remove_from_bucket\<close> fails with a \<^verbatim>\<open>KeyError\<close>. No run of
  \<^verbatim>\<open>compute_order\<close> reaches such a state, as the next theorem shows.
\<close>

lemma update_removed_node_self_loop:
  "update_removed_node rt_example
     \<lparr>input_dict = [(0, [(0, 5)])], output_dict = [(0, [(0, 5)])], buckets = [],
      node_to_bucket_key = [(0, Delta 0)], left_list = [0], right_list = [],
      feedback_val = 5\<rparr> 0 = Inl KeyError"
  by code_simp

text \<open>
  C10 (amended). For every input containing a self-loop edge, \<^verbatim>\<open>compute_order\<close> does not
  return an order: the sanity check of line 115 (\<^verbatim>\<open>assert nd not in input_dict[ind]\<close>) fails
  before the buckets are built, so the run ends with an \<^verbatim>\<open>AssertionError\<close> and the greedy
  loop, \<^verbatim>\<open>update_removed_node\<close> and \<^verbatim>\<open>remove_from_bucket\<close> are never reached.
\<close>

theorem self_loop_rejected:
  assumes "set_iter_ok rt" and "\<exists>r\<in>set connections. r0 r = r1 r"
  shows "initial_state rt g connections random_seed = Inl (AssertionError 115)
       \<and> compute_order rt g connections random_seed = Inl (AssertionError 115)"
  using initial_state_self_loop [OF assms, of g random_seed]
  by (simp add: compute_order_def compute_order_locals_def)

theorem self_loop_rejected_witness:
  "set_iter_ok rt_example
   \<and> (\<exists>r\<in>set [(0::nat, 0::nat, 5::int)]. r0 r = r1 r)
   \<and> initial_state rt_example () [(0::nat, 0, 5)] 0 = Inl (AssertionError 115)
   \<and> compute_order rt_example () [(0::nat, 0, 5)] 0 = Inl (AssertionError 115)"
proof -
  have n: "\<exists>r\<in>set [(0::nat, 0::nat, 5::int)]. r0 r = r1 r" by (simp add: r0_def r1_def)
  from self_loop_rejected [OF rt_example_ok n, of "()" 0] n rt_example_ok
  show ?thesis by blast
qed

text \<open>
  C10 as stated fails on its own example: the exception is the \<^verbatim>\<open>AssertionError\<close> of line
  115, raised while the initial state is built, not a \<^verbatim>\<open>KeyError\<close> of the greedy loop.
\<close>

theorem self_loop_counterexample:
  "initial_state rt_example () [(0::nat, 0, 5)] 0 = Inl (AssertionError 115)
   \<and> compute_order_locals rt_example () [(0::nat, 0, 5)] 0 \<noteq> Inl KeyError"
  by code_simp

subsection \<open>Determinism\<close>

text \<open>
  Two interpreter processes that differ only in the order in which the node set is
  iterated. \<open>rt_hash order\<close> iterates a set of \<^verbatim>\<open>str\<close> identifiers in the given order; the
  draws after \<^verbatim>\<open>random.seed(0)\<close> are those of the two shuffles of three-element lists
  (\<open>1, 1\<close> for the connections, \<open>0, 1\<close> for the node ids), the same in both processes.
\<close>

definition rt_hash :: "string list \<Rightarrow> (string, nat list) runtime" where
  "rt_hash order =
     \<lparr>set_iter = (\<lambda>S. filter (\<lambda>x. x \<in> S) order), set_slot = (\<lambda>step s n. n),
      set_pop = (\<lambda>step s. 0), seed_rng = (\<lambda>n. [1, 1, 0, 1]),
      randbelow = (\<lambda>g n. case g of [] \<Rightarrow> (0, []) | d # g' \<Rightarrow> (d, g'))\<rparr>"

text \<open>
  What line 40 does guarantee: the state in which the caller left the global generator
  has no influence, since no draw is made before \<^verbatim>\<open>random.seed(random_seed)\<close>.
\<close>

lemma compute_order_ignores_generator_state:
  "compute_order_locals rt g connections random_seed =
   compute_order_locals rt g' connections random_seed"
  by (simp add: compute_order_locals_def initial_state_def resolve_graph_def compact_graph_def
      random_seed_call_def)

text \<open>
  C9 (fails on the code). The same edge list and the same \<^verbatim>\<open>random_seed\<close> give different
  orders in two runs: only the permutation is seeded, the list that line 43 hands to the
  shuffle is in the iteration order of the node set of line 4. With the set iterating as
  \<open>B, A, C\<close> in one process and as \<open>B, C, A\<close> in the other, \<^verbatim>\<open>compute_order\<close> returns
  \<open>C, A, B\<close> in the first and \<open>A, B, C\<close> in the second.
\<close>

theorem compute_order_depends_on_set_order:
  "set_iter (rt_hash [''B'', ''A'', ''C''])
     (nodes_from_connections_table [(''A'', ''B'', 5), (''B'', ''C'', 5), (''C'', ''A'', 5)]) =
     [''B'', ''A'', ''C'']
   \<and> set_iter (rt_hash [''B'', ''C'', ''A''])
     (nodes_from_connections_table [(''A'', ''B'', 5), (''B'', ''C'', 5), (''C'', ''A'', 5)]) =
     [''B'', ''C'', ''A'']
   \<and> compute_order_locals (rt_hash [''B'', ''A'', ''C'']) []
       [(''A'', ''B'', 5), (''B'', ''C'', 5), (''C'', ''A'', 5)] 0 = Inr ([''C'', ''A'', ''B''], 5)
   \<and> compute_order_locals (rt_hash [''B'', ''C'', ''A'']) []
       [(''A'', ''B'', 5), (''B'', ''C'', 5), (''C'', ''A'', 5)] 0 = Inr ([''A'', ''B'', ''C''], 5)
   \<and> compute_order (rt_hash [''B'', ''A'', ''C'']) []
       [(''A'', ''B'', 5), (''B'', ''C'', 5), (''C'', ''A'', 5)] 0 = Inr [''C'', ''A'', ''B'']
   \<and> compute_order (rt_hash [''B'', ''C'', ''A'']) []
       [(''A'', ''B'', 5), (''B'', ''C'', 5), (''C'', ''A'', 5)] 0 = Inr [''A'', ''B'', ''C'']"
  by code_simp

end
